theory Spec2Isabelle
  imports Main "HOL-Library.Sublist"
begin

section \<open>Python string primitives\<close>

text \<open>
  A Python \<^verbatim>\<open>str\<close> is modelled as a \<^typ>\<open>string\<close>; one \<^typ>\<open>char\<close> stands for
  one code point below 256.  The character classes below are the members below 256 of
  the classes that \<^verbatim>\<open>str.strip\<close>, \<^verbatim>\<open>str.splitlines\<close>, \<^verbatim>\<open>str.lower\<close> and the
  \<^verbatim>\<open>re\<close> classes \<^verbatim>\<open>\s\<close> and \<^verbatim>\<open>\w\<close> use on \<^verbatim>\<open>str\<close> patterns.
\<close>

definition is_space :: "char \<Rightarrow> bool" where
  "is_space c =
     (let n = (of_char c :: nat)
      in (9 \<le> n \<and> n \<le> 13) \<or> (28 \<le> n \<and> n \<le> 32) \<or> n = 133 \<or> n = 160)"

definition is_word :: "char \<Rightarrow> bool" where
  "is_word c =
     (let n = (of_char c :: nat)
      in (48 \<le> n \<and> n \<le> 57) \<or> (65 \<le> n \<and> n \<le> 90) \<or> n = 95 \<or> (97 \<le> n \<and> n \<le> 122)
         \<or> n = 170 \<or> n = 178 \<or> n = 179 \<or> n = 181 \<or> n = 185 \<or> n = 186
         \<or> (188 \<le> n \<and> n \<le> 190) \<or> (192 \<le> n \<and> n \<le> 214) \<or> (216 \<le> n \<and> n \<le> 246)
         \<or> (248 \<le> n \<and> n \<le> 255))"

definition is_linebreak :: "char \<Rightarrow> bool" where
  "is_linebreak c =
     (let n = (of_char c :: nat)
      in (10 \<le> n \<and> n \<le> 13) \<or> (28 \<le> n \<and> n \<le> 30) \<or> n = 133)"

definition lower_char :: "char \<Rightarrow> char" where
  "lower_char c =
     (let n = (of_char c :: nat)
      in if (65 \<le> n \<and> n \<le> 90) \<or> (192 \<le> n \<and> n \<le> 214) \<or> (216 \<le> n \<and> n \<le> 222)
         then char_of (n + 32) else c)"

definition lower :: "string \<Rightarrow> string" where
  "lower s = map lower_char s"

definition lstrip :: "string \<Rightarrow> string" where
  "lstrip s = dropWhile is_space s"

definition rstrip :: "string \<Rightarrow> string" where
  "rstrip s = rev (dropWhile is_space (rev s))"

definition strip :: "string \<Rightarrow> string" where
  "strip s = rstrip (lstrip s)"

text \<open>\<^verbatim>\<open>s.strip(chars)\<close>: strips the characters of \<open>chars\<close> from both ends.\<close>

definition strip_chars :: "string \<Rightarrow> string \<Rightarrow> string" where
  "strip_chars chars s =
     rev (dropWhile (\<lambda>c. c \<in> set chars) (rev (dropWhile (\<lambda>c. c \<in> set chars) s)))"

text \<open>
  \<^verbatim>\<open>s.splitlines()\<close>: a line ends at a line boundary, \<^verbatim>\<open>\r\n\<close> counts as one
  boundary, and no empty line is reported after a final boundary.
\<close>

fun splitlines :: "string \<Rightarrow> string list" where
  "splitlines [] = []"
| "splitlines [c] = (if is_linebreak c then [[]] else [[c]])"
| "splitlines (c # d # cs) =
     (if c = CHR 0x0D \<and> d = CHR 0x0A then [] # splitlines cs
      else if is_linebreak c then [] # splitlines (d # cs)
      else (case splitlines (d # cs) of
              [] \<Rightarrow> [[c]]
            | l # ls \<Rightarrow> (c # l) # ls))"

text \<open>\<^verbatim>\<open>s.split(sep)\<close> for a separator of one character: never the empty list.\<close>

fun split_char :: "char \<Rightarrow> string \<Rightarrow> string list" where
  "split_char sep [] = [[]]"
| "split_char sep (c # cs) =
     (if c = sep then [] # split_char sep cs
      else (case split_char sep cs of
              [] \<Rightarrow> [[c]]
            | l # ls \<Rightarrow> (c # l) # ls))"

text \<open>The two halves of \<^verbatim>\<open>s.split(sep, 1)\<close> when \<open>sep\<close> occurs in \<open>s\<close>.\<close>

definition before_first :: "char \<Rightarrow> string \<Rightarrow> string" where
  "before_first sep s = takeWhile (\<lambda>c. c \<noteq> sep) s"

definition after_first :: "char \<Rightarrow> string \<Rightarrow> string" where
  "after_first sep s = tl (dropWhile (\<lambda>c. c \<noteq> sep) s)"

fun join :: "string \<Rightarrow> string list \<Rightarrow> string" where
  "join sep [] = []"
| "join sep [x] = x"
| "join sep (x # y # ys) = x @ sep @ join sep (y # ys)"

definition removeprefix :: "string \<Rightarrow> string \<Rightarrow> string" where
  "removeprefix p s = (if prefix p s then drop (length p) s else s)"

abbreviation NL :: string where
  "NL \<equiv> [CHR 0x0A]"

abbreviation SQ :: string where
  "SQ \<equiv> [CHR 0x27]"

section \<open>Data model (types.py)\<close>

record Param =
  param_name :: string
  param_type :: string
  param_description :: string
  param_required :: bool
  param_default :: "string option"

record Tool =
  tool_name :: string
  tool_description :: string
  tool_params :: "Param list"
  tool_returns :: string
  tool_sample_code :: string

record Manifest =
  manifest_name :: string
  manifest_description :: string
  manifest_version :: string
  manifest_tools :: "Tool list"
  manifest_content :: string

text \<open>The constructors with the defaults of the pydantic fields.\<close>

definition mk_Param :: "string \<Rightarrow> string \<Rightarrow> string \<Rightarrow> bool \<Rightarrow> string option \<Rightarrow> Param" where
  "mk_Param n t d r df =
     \<lparr>param_name = n, param_type = t, param_description = d, param_required = r,
      param_default = df\<rparr>"

definition mk_Tool :: "string \<Rightarrow> string \<Rightarrow> Param list \<Rightarrow> string \<Rightarrow> string \<Rightarrow> Tool" where
  "mk_Tool n d ps r sc =
     \<lparr>tool_name = n, tool_description = d, tool_params = ps, tool_returns = r,
      tool_sample_code = sc\<rparr>"

definition mk_Manifest :: "string \<Rightarrow> string \<Rightarrow> Tool list \<Rightarrow> Manifest" where
  "mk_Manifest n d ts =
     \<lparr>manifest_name = n, manifest_description = d, manifest_version = ''0.1'',
      manifest_tools = ts, manifest_content = []\<rparr>"

definition empty_Manifest :: Manifest where
  "empty_Manifest = mk_Manifest [] [] []"

text \<open>\<^verbatim>\<open>Manifest.get_tool\<close>: the first tool of that name, or \<^verbatim>\<open>None\<close>.\<close>

fun get_tool :: "Tool list \<Rightarrow> string \<Rightarrow> Tool option" where
  "get_tool [] n = None"
| "get_tool (t # ts) n = (if tool_name t = n then Some t else get_tool ts n)"

definition Manifest_get_tool :: "Manifest \<Rightarrow> string \<Rightarrow> Tool option" where
  "Manifest_get_tool m n = get_tool (manifest_tools m) n"

definition tool_names :: "Manifest \<Rightarrow> string list" where
  "tool_names m = map tool_name (manifest_tools m)"

section \<open>Declaration generator (codegen.py)\<close>

definition TS_TYPE_MAP :: "(string \<times> string) list" where
  "TS_TYPE_MAP =
     [(''string'', ''string''), (''number'', ''number''), (''boolean'', ''boolean''),
      (''object'', ''Record<string, unknown>''), (''array'', ''unknown[]'')]"

definition param_to_ts :: "Param \<Rightarrow> string" where
  "param_to_ts p =
     (let ts_type = (case map_of TS_TYPE_MAP (param_type p) of
                       Some t \<Rightarrow> t
                     | None \<Rightarrow> param_type p);
          optional = (if \<not> param_required p then ''?'' else [])
      in param_name p @ optional @ '': '' @ ts_type)"




section \<open>Validation (site.py)\<close>

text \<open>
  The loop of \<^verbatim>\<open>validate\<close> over the tools; \<open>seen\<close> is \<^verbatim>\<open>seen_names\<close>.  The
  manifest is only read: the result is the list of warnings.
\<close>

fun validate_tools :: "string set \<Rightarrow> Tool list \<Rightarrow> string list" where
  "validate_tools seen [] = []"
| "validate_tools seen (t # ts) =
     (let w1 = (if tool_name t = [] then [''A tool has no name.'']
                else if tool_name t \<in> seen
                     then [''Duplicate tool name: '' @ SQ @ tool_name t @ SQ @ ''.'']
                     else []);
          seen' = (if tool_name t = [] then seen
                   else if tool_name t \<in> seen then seen
                   else insert (tool_name t) seen);
          w2 = (if tool_description t = []
                then [''Tool '' @ SQ @ tool_name t @ SQ @ '' has no description.'']
                else []);
          w3 = (if tool_params t = [] \<and> tool_sample_code t = []
                then [''Tool '' @ SQ @ tool_name t @ SQ @ '' has no params and no sample_code.'']
                else [])
      in w1 @ w2 @ w3 @ validate_tools seen' ts)"

definition validate :: "Manifest \<Rightarrow> string list" where
  "validate m =
     (if manifest_name m = [] then [''Manifest has no name.''] else [])
     @ (if manifest_tools m = [] then [''Manifest has no tools.''] else [])
     @ validate_tools {} (manifest_tools m)"

text \<open>
  The warnings as the specification lists them: for the tool at position \<open>i\<close>, with
  \<open>earlier\<close> the tools declared before it.
\<close>

definition tool_warnings :: "Tool list \<Rightarrow> Tool \<Rightarrow> string list" where
  "tool_warnings earlier t =
     (if tool_name t = [] then [''A tool has no name.'']
      else if tool_name t \<in> tool_name ` set earlier
           then [''Duplicate tool name: '' @ SQ @ tool_name t @ SQ @ ''.'']
           else [])
     @ (if tool_description t = []
        then [''Tool '' @ SQ @ tool_name t @ SQ @ '' has no description.''] else [])
     @ (if tool_params t = [] \<and> tool_sample_code t = []
        then [''Tool '' @ SQ @ tool_name t @ SQ @ '' has no params and no sample_code.'']
        else [])"

definition validate_spec :: "Manifest \<Rightarrow> string list" where
  "validate_spec m =
     (if manifest_name m = [] then [''Manifest has no name.''] else [])
     @ (if manifest_tools m = [] then [''Manifest has no tools.''] else [])
     @ concat (map (\<lambda>i. tool_warnings (take i (manifest_tools m)) (manifest_tools m ! i))
                   [0 ..< length (manifest_tools m)])"

section \<open>Agent client (client.py)\<close>

text \<open>
  The exceptions of the package as values.  A \<open>KeyError\<close> carries the requested name
  and the tool names its message is formatted from; \<open>HTTPStatusError\<close> is the fetch
  error that \<^verbatim>\<open>raise_for_status\<close> raises in discovery.py, with the status code.
\<close>

datatype error =
    ValueError string
  | RuntimeError string
  | KeyError string "string list"
  | HTTPStatusError nat

record AgentClient =
  client_manifest :: "Manifest option"

definition list_tools :: "AgentClient \<Rightarrow> error + string list" where
  "list_tools c =
     (case client_manifest c of
        None \<Rightarrow> Inl (RuntimeError ''No manifest loaded. Call detect() or load() first.'')
      | Some m \<Rightarrow> Inr (tool_names m))"

definition client_get_tool :: "AgentClient \<Rightarrow> string \<Rightarrow> error + Tool" where
  "client_get_tool c n =
     (case client_manifest c of
        None \<Rightarrow> Inl (RuntimeError ''No manifest loaded. Call detect() or load() first.'')
      | Some m \<Rightarrow>
          (case Manifest_get_tool m n of
             None \<Rightarrow> Inl (KeyError n (tool_names m))
           | Some t \<Rightarrow> Inr t))"

section \<open>Grammar parser (parser.py)\<close>

subsection \<open>The regular expressions\<close>

text \<open>
  \<^verbatim>\<open>re.split(r"(?m)^<pat>", s)\<close> for a literal, non-empty \<open>pat\<close> without a newline:
  \<open>bol\<close> says that the position is the start of the text or follows a newline.
\<close>

function split_bol :: "string \<Rightarrow> bool \<Rightarrow> string \<Rightarrow> string list" where
  "split_bol pat bol [] = [[]]"
| "split_bol pat bol (c # cs) =
     (if bol \<and> pat \<noteq> [] \<and> prefix pat (c # cs)
      then [] # split_bol pat False (drop (length pat) (c # cs))
      else (case split_bol pat (c = CHR 0x0A) cs of
              [] \<Rightarrow> [[c]]
            | p # ps \<Rightarrow> (c # p) # ps))"
  by pat_completeness auto
termination
  by (relation "measure (\<lambda>(pat, bol, s). length s)") (auto simp: neq_Nil_conv)

text \<open>The pattern \<^verbatim>\<open>tool:\s+\<close> matches at the head of \<open>s\<close>.\<close>

definition tool_marker_at :: "string \<Rightarrow> bool" where
  "tool_marker_at s =
     (prefix ''tool:'' s \<and> (case drop 5 s of [] \<Rightarrow> False | w # _ \<Rightarrow> is_space w))"

text \<open>\<^verbatim>\<open>re.search(r"^tool:\s+", s, re.MULTILINE)\<close> finds a match.\<close>

fun search_tool :: "bool \<Rightarrow> string \<Rightarrow> bool" where
  "search_tool bol [] = False"
| "search_tool bol (c # cs) =
     ((bol \<and> tool_marker_at (c # cs)) \<or> search_tool (c = CHR 0x0A) cs)"

text \<open>
  \<^verbatim>\<open>re.split(r"(?m)^tool:\s+", s)\<close>: the greedy \<^verbatim>\<open>\s+\<close> takes the whole run of
  whitespace, so the next position is a line start exactly when that run ends in a
  newline.
\<close>

function split_tool :: "bool \<Rightarrow> string \<Rightarrow> string list" where
  "split_tool bol [] = [[]]"
| "split_tool bol (c # cs) =
     (if bol \<and> tool_marker_at (c # cs)
      then [] # split_tool (last (takeWhile is_space (drop 5 (c # cs))) = CHR 0x0A)
                           (dropWhile is_space (drop 5 (c # cs)))
      else (case split_tool (c = CHR 0x0A) cs of
              [] \<Rightarrow> [[c]]
            | p # ps \<Rightarrow> (c # p) # ps))"
  by pat_completeness auto
termination
proof (relation "measure (\<lambda>(bol, s). length s)", goal_cases)
  case 1
  show ?case by simp
next
  case (2 bol c cs)
  have "length (dropWhile is_space (drop 5 (c # cs))) \<le> length (drop 5 (c # cs))"
    by (rule length_dropWhile_le)
  then show ?case by simp
next
  case (3 bol c cs)
  show ?case by simp
qed

text \<open>
  The tail \<^verbatim>\<open>\s*(.+)$\<close> of the param pattern on the text after the colon: the group is
  the text after the leading whitespace, without a newline in it; a text of whitespace
  only gives its last character to the group.
\<close>

definition match_desc :: "string \<Rightarrow> string option" where
  "match_desc r =
     (let r' = (if r \<noteq> [] \<and> last r = CHR 0x0A then butlast r else r);
          b = dropWhile is_space r'
      in if b \<noteq> [] then (if CHR 0x0A \<in> set b then None else Some b)
         else if r' = [] \<or> last r' = CHR 0x0A then None
         else Some [last r'])"

text \<open>
  \<^verbatim>\<open>_PARAM_RE.match\<close>, the pattern
  \<^verbatim>\<open>^-\s+`(\w+)`\s*\(([^)]+)\)\s*:\s*(.+)$\<close>: the three groups.
\<close>

definition PARAM_RE_match :: "string \<Rightarrow> (string \<times> string \<times> string) option" where
  "PARAM_RE_match s =
     (case s of
        [] \<Rightarrow> None
      | c # r1 \<Rightarrow>
          if c \<noteq> CHR ''-'' \<or> takeWhile is_space r1 = [] then None
          else (case dropWhile is_space r1 of
                  [] \<Rightarrow> None
                | q # r3 \<Rightarrow>
                    if q \<noteq> CHR ''`'' \<or> takeWhile is_word r3 = [] then None
                    else (case dropWhile is_word r3 of
                            [] \<Rightarrow> None
                          | q' # r5 \<Rightarrow>
                              if q' \<noteq> CHR ''`'' then None
                              else (case dropWhile is_space r5 of
                                      [] \<Rightarrow> None
                                    | b # r7 \<Rightarrow>
                                        if b \<noteq> CHR ''('' \<or> takeWhile (\<lambda>x. x \<noteq> CHR '')'') r7 = []
                                        then None
                                        else (case dropWhile (\<lambda>x. x \<noteq> CHR '')'') r7 of
                                                [] \<Rightarrow> None
                                              | b' # r9 \<Rightarrow>
                                                  (case dropWhile is_space r9 of
                                                     [] \<Rightarrow> None
                                                   | k # r11 \<Rightarrow>
                                                       if k \<noteq> CHR '':'' then None
                                                       else (case match_desc r11 of
                                                               None \<Rightarrow> None
                                                             | Some d \<Rightarrow>
                                                                 Some (takeWhile is_word r3,
                                                                       takeWhile (\<lambda>x. x \<noteq> CHR '')'') r7,
                                                                       d))))))))"

text \<open>
  \<^verbatim>\<open>_TOOL_HEADER_RE.match\<close>, the pattern \<^verbatim>\<open>^tool:\s+(\w+)\(([^)]*)\)\s*$\<close>: the two
  groups.
\<close>

definition TOOL_HEADER_RE_match :: "string \<Rightarrow> (string \<times> string) option" where
  "TOOL_HEADER_RE_match s =
     (if \<not> tool_marker_at s then None
      else (let r2 = dropWhile is_space (drop 5 s)
            in if takeWhile is_word r2 = [] then None
               else (case dropWhile is_word r2 of
                       [] \<Rightarrow> None
                     | b # r4 \<Rightarrow>
                         if b \<noteq> CHR ''('' then None
                         else (case dropWhile (\<lambda>x. x \<noteq> CHR '')'') r4 of
                                 [] \<Rightarrow> None
                               | b' # r5 \<Rightarrow>
                                   if list_all is_space r5
                                   then Some (takeWhile is_word r2,
                                              takeWhile (\<lambda>x. x \<noteq> CHR '')'') r4)
                                   else None))))"

text \<open>The text before the first \<^verbatim>\<open>```\<close>, if there is one.\<close>

fun before_fence :: "string \<Rightarrow> string option" where
  "before_fence [] = None"
| "before_fence (c # cs) =
     (if prefix ''```'' (c # cs) then Some []
      else map_option ((#) c) (before_fence cs))"

text \<open>
  \<^verbatim>\<open>_CODE_BLOCK_RE.search\<close>, the pattern \<^verbatim>\<open>```\w*\n(.*?)```\<close> with \<^verbatim>\<open>DOTALL\<close>: the
  group of the leftmost match.
\<close>

fun CODE_BLOCK_RE_search :: "string \<Rightarrow> string option" where
  "CODE_BLOCK_RE_search [] = None"
| "CODE_BLOCK_RE_search (c # cs) =
     (if prefix ''```'' (c # cs)
      then (case dropWhile is_word (drop 3 (c # cs)) of
              [] \<Rightarrow> CODE_BLOCK_RE_search cs
            | n # body \<Rightarrow>
                if n = CHR 0x0A
                then (case before_fence body of
                        Some g \<Rightarrow> Some g
                      | None \<Rightarrow> CODE_BLOCK_RE_search cs)
                else CODE_BLOCK_RE_search cs)
      else CODE_BLOCK_RE_search cs)"

text \<open>\<^verbatim>\<open>re.match(r"^\s{2}\w+:", line)\<close> finds a match.\<close>

definition section_key_match :: "string \<Rightarrow> bool" where
  "section_key_match line =
     (case line of
        a # b # r \<Rightarrow>
          is_space a \<and> is_space b \<and> takeWhile is_word r \<noteq> []
          \<and> (case dropWhile is_word r of [] \<Rightarrow> False | k # _ \<Rightarrow> k = CHR '':'')
      | _ \<Rightarrow> False)"

subsection \<open>Shared helpers\<close>

definition extract_code_block :: "string \<Rightarrow> string" where
  "extract_code_block text =
     (case CODE_BLOCK_RE_search text of
        Some g \<Rightarrow> strip g
      | None \<Rightarrow> strip text)"

text \<open>
  One step of the modifier loop of \<^verbatim>\<open>_parse_params_block\<close> on the state
  \<open>(ptype, required, default)\<close>; \<open>tok\<close> is the modifier before stripping.
\<close>

definition apply_modifier :: "string \<times> bool \<times> string option \<Rightarrow> string \<Rightarrow> string \<times> bool \<times> string option" where
  "apply_modifier st tok =
     (case st of (ptype, required, dflt) \<Rightarrow>
        (let md = strip tok
         in if md = ''optional'' then (ptype, False, dflt)
            else if md = ''required'' then (ptype, True, dflt)
            else if prefix ''default='' md
                 then (ptype, False, Some (strip (removeprefix ''default='' md)))
            else if md \<in> set [''string'', ''number'', ''boolean'', ''object'', ''array'']
                 then (md, required, dflt)
            else (md, required, dflt)))"

definition parse_modifiers :: "string \<Rightarrow> string \<times> bool \<times> string option" where
  "parse_modifiers modifiers =
     foldl apply_modifier (''string'', True, None) (split_char CHR '','' modifiers)"

definition param_of_line :: "string \<Rightarrow> Param option" where
  "param_of_line line =
     (case PARAM_RE_match (strip line) of
        None \<Rightarrow> None
      | Some (name, modifiers, d) \<Rightarrow>
          (case parse_modifiers modifiers of (ptype, required, dflt) \<Rightarrow>
             Some (mk_Param name ptype (strip d) required dflt)))"

definition parse_params_block :: "string \<Rightarrow> Param list" where
  "parse_params_block text = List.map_filter param_of_line (splitlines (strip text))"

subsection \<open>Heading dialect\<close>

fun header_loop :: "string \<Rightarrow> string list \<Rightarrow> string list \<Rightarrow> string \<times> string list" where
  "header_loop name desc_lines [] = (name, desc_lines)"
| "header_loop name desc_lines (line # ls) =
     (if prefix ''# '' line then header_loop (strip (removeprefix ''# '' line)) desc_lines ls
      else if name \<noteq> [] then header_loop name (desc_lines @ [line]) ls
      else header_loop name desc_lines ls)"

definition parse_manifest_header :: "string \<Rightarrow> string \<times> string" where
  "parse_manifest_header header =
     (case header_loop [] [] (splitlines (strip header)) of
        (name, desc_lines) \<Rightarrow> (name, strip (join NL desc_lines)))"

text \<open>
  The dictionary \<^verbatim>\<open>sub_sections\<close>: the key is the lowercased, stripped first line of a
  subsection, the value the text after its first newline; a later subsection of the
  same key replaces an earlier one.
\<close>

definition sub_section_entry :: "string \<Rightarrow> string \<times> string" where
  "sub_section_entry s =
     (lower (strip (before_first (CHR 0x0A) s)),
      if CHR 0x0A \<in> set s then after_first (CHR 0x0A) s else [])"

definition parse_heading_tool :: "string \<Rightarrow> Tool" where
  "parse_heading_tool section =
     (let sub_parts = split_bol ''### '' True section;
          header = (case sub_parts of [] \<Rightarrow> [] | h # _ \<Rightarrow> h);
          sub_sections = map_of (rev (map sub_section_entry (drop 1 sub_parts)));
          lines = splitlines (strip header);
          tool_name = (case lines of [] \<Rightarrow> [] | l # _ \<Rightarrow> strip l);
          tool_desc = strip (join NL (drop 1 lines));
          params = (case sub_sections ''params'' of
                      Some b \<Rightarrow> parse_params_block b
                    | None \<Rightarrow> []);
          sample_code = (case sub_sections ''sample code'' of
                           Some b \<Rightarrow> extract_code_block b
                         | None \<Rightarrow> []);
          returns = (case sub_sections ''output'' of
                       Some b \<Rightarrow> extract_code_block b
                     | None \<Rightarrow>
                         (case sub_sections ''returns'' of
                            Some b \<Rightarrow> extract_code_block b
                          | None \<Rightarrow> []))
      in mk_Tool tool_name tool_desc params returns sample_code)"

definition parse_heading :: "string \<Rightarrow> Manifest" where
  "parse_heading markdown =
     (let parts = split_bol ''## '' True markdown;
          header = (case parts of [] \<Rightarrow> [] | h # _ \<Rightarrow> h);
          tool_sections = drop 1 parts
      in case parse_manifest_header header of
           (name, description) \<Rightarrow>
             mk_Manifest name description (map parse_heading_tool tool_sections))"

subsection \<open>Compact dialect\<close>

fun preamble_loop :: "string \<Rightarrow> string list \<Rightarrow> string list \<Rightarrow> string \<times> string list" where
  "preamble_loop name preamble_lines [] = (name, preamble_lines)"
| "preamble_loop name preamble_lines (line # ls) =
     (if prefix ''# '' line
      then preamble_loop (strip (removeprefix ''# '' line)) preamble_lines ls
      else if TOOL_HEADER_RE_match line \<noteq> None then (name, preamble_lines)
      else preamble_loop name (preamble_lines @ [line]) ls)"

text \<open>
  The default and the required flag that the header argument string gives a declared
  param: the loop over \<^verbatim>\<open>raw_params_str.split(",")\<close>, on the state
  \<open>(default, required)\<close>.
\<close>

definition header_default_step :: "string \<Rightarrow> string option \<times> bool \<Rightarrow> string \<Rightarrow> string option \<times> bool" where
  "header_default_step pname st part0 =
     (let part = strip part0
      in if CHR ''='' \<in> set part \<and> strip (before_first CHR ''='' part) = pname
         then (Some (strip_chars [CHR 0x27, CHR 0x22] (strip (after_first CHR ''='' part))), False)
         else st)"

definition compact_param_of_line :: "string \<Rightarrow> string \<Rightarrow> Param option" where
  "compact_param_of_line raw_params_str line =
     (let stripped = strip line
      in if stripped = [] then None
         else if CHR '':'' \<in> set stripped
         then (let pname = strip (before_first CHR '':'' stripped);
                   ptype = strip (after_first CHR '':'' stripped)
               in case foldl (header_default_step pname) (None, True)
                         (split_char CHR '','' raw_params_str) of
                    (dflt, required) \<Rightarrow> Some (mk_Param pname ptype [] required dflt))
         else None)"

definition parse_compact_params :: "string list \<Rightarrow> string \<Rightarrow> Param list" where
  "parse_compact_params lines raw_params_str =
     List.map_filter (compact_param_of_line raw_params_str) lines"

definition param_of_signature_part :: "string \<Rightarrow> Param option" where
  "param_of_signature_part part0 =
     (let part = strip part0
      in if part = [] then None
         else if CHR ''='' \<in> set part
         then Some (mk_Param (strip (before_first CHR ''='' part)) ''string'' [] False
                      (Some (strip_chars [CHR 0x27, CHR 0x22]
                               (strip (after_first CHR ''='' part)))))
         else Some (mk_Param (strip part) ''string'' [] True None))"

definition params_from_signature :: "string \<Rightarrow> Param list" where
  "params_from_signature sig = List.map_filter param_of_signature_part (split_char CHR '','' sig)"

text \<open>The running tool state of \<^verbatim>\<open>_parse_compact_tool\<close>.\<close>

record tool_state =
  st_description :: string
  st_params :: "Param list"
  st_returns :: string
  st_sample_code :: string

definition code_or_text :: "string list \<Rightarrow> string" where
  "code_or_text lines =
     (let code_text = join NL lines
      in if before_fence code_text \<noteq> None then extract_code_block code_text
         else strip code_text)"

definition apply_section :: "string \<Rightarrow> string list \<Rightarrow> string \<Rightarrow> tool_state \<Rightarrow> tool_state" where
  "apply_section key lines raw_params_str st =
     (if key = ''description'' then st\<lparr>st_description := strip (join NL (map strip lines))\<rparr>
      else if key = ''params'' then st\<lparr>st_params := parse_compact_params lines raw_params_str\<rparr>
      else if key \<in> set [''output'', ''returns''] then st\<lparr>st_returns := code_or_text lines\<rparr>
      else if key = ''sample_code'' then st\<lparr>st_sample_code := code_or_text lines\<rparr>
      else st)"

text \<open>
  The loop over the lines after the header line, on \<open>(current_key, current_lines)\<close> and
  the tool state; the last section is applied after the loop.
\<close>

fun section_loop :: "string \<Rightarrow> string \<Rightarrow> string list \<Rightarrow> tool_state \<Rightarrow> string list \<Rightarrow> tool_state" where
  "section_loop raw current_key current_lines st [] =
     (if current_key \<noteq> [] then apply_section current_key current_lines raw st else st)"
| "section_loop raw current_key current_lines st (line # ls) =
     (if section_key_match line \<and> \<not> prefix ''    '' line
      then (let st' = (if current_key \<noteq> []
                       then apply_section current_key current_lines raw st else st);
                stripped = strip line;
                key = strip (before_first CHR '':'' stripped);
                rest = strip (drop (length key + 1) stripped)
            in section_loop raw key (if rest \<noteq> [] \<and> rest \<noteq> ''|'' then [rest] else []) st' ls)
      else section_loop raw current_key (current_lines @ [line]) st ls)"

definition parse_compact_tool :: "string \<Rightarrow> error + Tool" where
  "parse_compact_tool block =
     (case splitlines (strip block) of
        [] \<Rightarrow> Inl (ValueError ''Empty tool block'')
      | l0 # ls \<Rightarrow>
          (let (tool_name, raw_params_str) =
                 (case TOOL_HEADER_RE_match (''tool: '' @ l0) of
                    None \<Rightarrow> (strip (before_first CHR ''('' l0), [])
                  | Some (n, a) \<Rightarrow> (n, a));
               st = section_loop raw_params_str [] []
                      \<lparr>st_description = [], st_params = [], st_returns = [],
                       st_sample_code = []\<rparr> ls;
               params = (if st_params st = [] \<and> raw_params_str \<noteq> []
                         then params_from_signature raw_params_str else st_params st)
           in Inr (mk_Tool tool_name (st_description st) params (st_returns st)
                     (st_sample_code st))))"

text \<open>The loop that parses the blocks: the first exception ends it.\<close>

fun parse_compact_tools :: "string list \<Rightarrow> error + Tool list" where
  "parse_compact_tools [] = Inr []"
| "parse_compact_tools (b # bs) =
     (case parse_compact_tool b of
        Inl e \<Rightarrow> Inl e
      | Inr t \<Rightarrow>
          (case parse_compact_tools bs of
             Inl e \<Rightarrow> Inl e
           | Inr ts \<Rightarrow> Inr (t # ts)))"

definition parse_compact :: "string \<Rightarrow> error + Manifest" where
  "parse_compact markdown =
     (case preamble_loop [] [] (splitlines markdown) of
        (name, preamble_lines) \<Rightarrow>
          (case parse_compact_tools (drop 1 (split_tool True markdown)) of
             Inl e \<Rightarrow> Inl e
           | Inr tools \<Rightarrow> Inr (mk_Manifest name (strip (join NL preamble_lines)) tools)))"

subsection \<open>Entry point\<close>

definition uses_compact :: "string \<Rightarrow> bool" where
  "uses_compact markdown = search_tool True markdown"

definition parse :: "string \<Rightarrow> error + Manifest" where
  "parse text =
     (let markdown = strip text
      in if markdown = [] then Inr empty_Manifest
         else (case (if uses_compact markdown then parse_compact markdown
                     else Inr (parse_heading markdown)) of
                 Inl e \<Rightarrow> Inl e
               | Inr manifest \<Rightarrow> Inr (manifest\<lparr>manifest_content := markdown\<rparr>)))"

section \<open>Serializer (serializer.py)\<close>

definition serialize_param :: "Param \<Rightarrow> string" where
  "serialize_param p =
     (let modifiers = [param_type p]
                      @ [if param_required p then ''required'' else ''optional'']
                      @ (case param_default p of
                           None \<Rightarrow> []
                         | Some d \<Rightarrow> [''default='' @ d]);
          desc = (if param_description p \<noteq> [] then '': '' @ param_description p else [])
      in ''- `'' @ param_name p @ ''` ('' @ join '', '' modifiers @ '')'' @ desc)"

definition serialize_tool :: "Tool \<Rightarrow> string list" where
  "serialize_tool t =
     [''## '' @ tool_name t]
     @ (if tool_description t \<noteq> [] then [tool_description t] else [])
     @ [[]]
     @ (if tool_params t \<noteq> []
        then [''### Params''] @ map serialize_param (tool_params t) @ [[]] else [])
     @ (if tool_returns t \<noteq> []
        then [''### Output'', ''```typescript'', tool_returns t, ''```'', []] else [])
     @ (if tool_sample_code t \<noteq> []
        then [''### Sample Code'', ''```javascript'', tool_sample_code t, ''```''] else [])"

definition to_markdown :: "Manifest \<Rightarrow> string" where
  "to_markdown m =
     (let lines0 = (if manifest_name m \<noteq> [] then [''# '' @ manifest_name m] else [])
                   @ (if manifest_description m \<noteq> [] then [manifest_description m] else []);
          lines1 = (if lines0 \<noteq> [] then lines0 @ [[]] else lines0);
          lines2 = lines1 @ concat (map (\<lambda>t. serialize_tool t @ [[]]) (manifest_tools m))
      in rstrip (join NL lines2) @ NL)"

section \<open>Specification-side predicates\<close>




section \<open>Canonical manifests and the text of their serialization\<close>

text \<open>
  The manifests on which serializing and parsing again gives the same structure, and the
  pieces the serialized text is made of.
\<close>

definition stripped :: "string \<Rightarrow> bool" where
  "stripped s = (strip s = s)"

definition no_linebreak :: "string \<Rightarrow> bool" where
  "no_linebreak s = list_all (\<lambda>c. \<not> is_linebreak c) s"

definition only_newlines :: "string \<Rightarrow> bool" where
  "only_newlines s = list_all (\<lambda>c. is_linebreak c \<longrightarrow> c = CHR 0x0A) s"

definition no_line_starts :: "string \<Rightarrow> string \<Rightarrow> bool" where
  "no_line_starts p s = list_all (\<lambda>l. \<not> prefix p l) (split_char (CHR 0x0A) s)"

definition plain_text :: "string \<Rightarrow> bool" where
  "plain_text s =
     (no_line_starts ''## '' s \<and> no_line_starts ''### '' s \<and> no_line_starts ''tool:'' s)"

definition modifier_text :: "string \<Rightarrow> bool" where
  "modifier_text s =
     (stripped s
      \<and> list_all (\<lambda>c. c \<noteq> CHR '','' \<and> c \<noteq> CHR '')'' \<and> \<not> is_linebreak c) s)"

definition clean_param :: "Param \<Rightarrow> bool" where
  "clean_param p =
     (param_name p \<noteq> [] \<and> list_all is_word (param_name p)
      \<and> modifier_text (param_type p)
      \<and> param_type p \<noteq> ''optional'' \<and> param_type p \<noteq> ''required''
      \<and> \<not> prefix ''default='' (param_type p)
      \<and> param_description p \<noteq> [] \<and> stripped (param_description p)
      \<and> no_linebreak (param_description p)
      \<and> (case param_default p of
            None \<Rightarrow> True
          | Some d \<Rightarrow> modifier_text d \<and> \<not> param_required p))"

definition clean_tool :: "Tool \<Rightarrow> bool" where
  "clean_tool t =
     (tool_name t \<noteq> [] \<and> stripped (tool_name t) \<and> no_linebreak (tool_name t)
      \<and> \<not> prefix ''### '' (tool_name t)
      \<and> stripped (tool_description t) \<and> only_newlines (tool_description t)
      \<and> plain_text (tool_description t)
      \<and> list_all clean_param (tool_params t)
      \<and> plain_text (tool_returns t)
      \<and> stripped (tool_sample_code t) \<and> before_fence (tool_sample_code t) = None
      \<and> plain_text (tool_sample_code t))"

definition clean_manifest :: "Manifest \<Rightarrow> bool" where
  "clean_manifest m =
     (stripped (manifest_name m) \<and> no_linebreak (manifest_name m)
      \<and> stripped (manifest_description m) \<and> only_newlines (manifest_description m)
      \<and> no_line_starts ''# '' (manifest_description m)
      \<and> no_line_starts ''## '' (manifest_description m)
      \<and> no_line_starts ''tool:'' (manifest_description m)
      \<and> list_all clean_tool (manifest_tools m))"

fun bol_match :: "(string \<Rightarrow> bool) \<Rightarrow> bool \<Rightarrow> string \<Rightarrow> bool" where
  "bol_match P bol [] = False"
| "bol_match P bol (c # cs) = ((bol \<and> P (c # cs)) \<or> bol_match P (c = CHR 0x0A) cs)"

definition unlines :: "string list \<Rightarrow> string" where
  "unlines ls = concat (map (\<lambda>l. l @ NL) ls)"

definition hdr_piece :: "Tool \<Rightarrow> string" where
  "hdr_piece t =
     tool_name t @ (if tool_description t \<noteq> [] then NL @ tool_description t else [])"

definition params_piece :: "Tool \<Rightarrow> string" where
  "params_piece t = ''Params'' @ NL @ join NL (map serialize_param (tool_params t))"

definition output_piece :: "Tool \<Rightarrow> string" where
  "output_piece t = ''Output'' @ NL @ ''```typescript'' @ NL @ tool_returns t @ NL @ ''```''"

definition sample_piece :: "Tool \<Rightarrow> string" where
  "sample_piece t =
     ''Sample Code'' @ NL @ ''```javascript'' @ NL @ tool_sample_code t @ NL @ ''```''"

definition sub_pieces :: "Tool \<Rightarrow> string list" where
  "sub_pieces t =
     (if tool_params t \<noteq> [] then [params_piece t] else [])
     @ (if tool_returns t \<noteq> [] then [output_piece t] else [])
     @ (if tool_sample_code t \<noteq> [] then [sample_piece t] else [])"

fun with_tails :: "string \<Rightarrow> string list \<Rightarrow> string list" where
  "with_tails w [] = []"
| "with_tails w [p] = [p @ w]"
| "with_tails w (p # q # ps) = (p @ NL @ NL) # with_tails w (q # ps)"

definition tool_section :: "Tool \<Rightarrow> string \<Rightarrow> string" where
  "tool_section t w =
     hd (with_tails w (hdr_piece t # sub_pieces t))
     @ concat (map ((@) ''### '') (tl (with_tails w (hdr_piece t # sub_pieces t))))"

definition full_tail :: "Tool \<Rightarrow> string" where
  "full_tail t = (if tool_sample_code t = [] then NL @ NL @ NL else NL @ NL)"

fun doc_sections :: "Tool list \<Rightarrow> string list" where
  "doc_sections [] = []"
| "doc_sections [t] = [tool_section t []]"
| "doc_sections (t # u # ts) = tool_section t (full_tail t) # doc_sections (u # ts)"

definition header_text :: "Manifest \<Rightarrow> string" where
  "header_text m =
     (if manifest_name m \<noteq> [] then ''# '' @ manifest_name m @ NL else [])
     @ (if manifest_description m \<noteq> [] then manifest_description m @ NL else [])
     @ (if manifest_name m \<noteq> [] \<or> manifest_description m \<noteq> [] then NL else [])"

definition ws_tail :: "string \<Rightarrow> bool" where
  "ws_tail w = (list_all is_space w \<and> (w = [] \<or> hd w = CHR 0x0A))"

definition line_pats :: "string list" where
  "line_pats = [''## '', ''### '', ''tool:'']"

definition body_text :: "Tool list \<Rightarrow> string" where
  "body_text ts = concat (map (\<lambda>t. ''## '' @ tool_section t (full_tail t)) ts)"

definition header_core :: "Manifest \<Rightarrow> string" where
  "header_core m =
     (if manifest_name m \<noteq> [] then ''# '' @ manifest_name m else [])
     @ (if manifest_name m \<noteq> [] \<and> manifest_description m \<noteq> [] then NL else [])
     @ manifest_description m"

subsection \<open>What the heading parser guarantees, and what the round trip needs besides\<close>

definition shaped_param :: "Param \<Rightarrow> bool" where
  "shaped_param p =
     (param_name p \<noteq> [] \<and> list_all is_word (param_name p)
      \<and> modifier_text (param_type p)
      \<and> param_type p \<noteq> ''optional'' \<and> param_type p \<noteq> ''required''
      \<and> \<not> prefix ''default='' (param_type p)
      \<and> param_description p \<noteq> [] \<and> stripped (param_description p)
      \<and> no_linebreak (param_description p)
      \<and> (case param_default p of None \<Rightarrow> True | Some d \<Rightarrow> modifier_text d))"

definition shaped_tool :: "Tool \<Rightarrow> bool" where
  "shaped_tool t =
     (stripped (tool_name t) \<and> no_linebreak (tool_name t)
      \<and> stripped (tool_description t) \<and> only_newlines (tool_description t)
      \<and> list_all shaped_param (tool_params t)
      \<and> stripped (tool_sample_code t))"

definition shaped_manifest :: "Manifest \<Rightarrow> bool" where
  "shaped_manifest m =
     (stripped (manifest_name m) \<and> no_linebreak (manifest_name m)
      \<and> stripped (manifest_description m) \<and> only_newlines (manifest_description m)
      \<and> list_all shaped_tool (manifest_tools m))"

definition safe_tool :: "Tool \<Rightarrow> bool" where
  "safe_tool t =
     (tool_name t \<noteq> [] \<and> \<not> prefix ''### '' (tool_name t)
      \<and> plain_text (tool_description t)
      \<and> list_all (\<lambda>p. param_default p = None \<or> \<not> param_required p) (tool_params t)
      \<and> plain_text (tool_returns t)
      \<and> before_fence (tool_sample_code t) = None
      \<and> plain_text (tool_sample_code t))"

definition roundtrip_safe :: "Manifest \<Rightarrow> bool" where
  "roundtrip_safe m =
     (no_line_starts ''# '' (manifest_description m)
      \<and> no_line_starts ''## '' (manifest_description m)
      \<and> no_line_starts ''tool:'' (manifest_description m)
      \<and> list_all safe_tool (manifest_tools m))"
section \<open>Properties of validation, the declaration generator and the client\<close>

subsection \<open>Validation\<close>

lemma validate_tools_spec:
  "seen = {n \<in> tool_name ` set pre. n \<noteq> []} \<Longrightarrow>
   validate_tools seen ts =
     concat (map (\<lambda>i. tool_warnings (pre @ take i ts) (ts ! i)) [0 ..< length ts])"
proof (induction ts arbitrary: seen pre)
  case Nil
  then show ?case by simp
next
  case (Cons t ts)
  let ?seen' = "if tool_name t = [] then seen
                else if tool_name t \<in> seen then seen else insert (tool_name t) seen"
  have seen': "?seen' = {n \<in> tool_name ` set (pre @ [t]). n \<noteq> []}"
    using Cons.prems by auto
  have rest: "validate_tools ?seen' ts =
      concat (map (\<lambda>i. tool_warnings ((pre @ [t]) @ take i ts) (ts ! i)) [0 ..< length ts])"
    by (rule Cons.IH [OF seen'])
  have idx: "[0 ..< length (t # ts)] = 0 # map Suc [0 ..< length ts]"
    by (simp add: upt_conv_Cons map_Suc_upt del: upt_Suc)
  have head: "tool_warnings (pre @ take 0 (t # ts)) ((t # ts) ! 0) =
      (if tool_name t = [] then [''A tool has no name.'']
                else if tool_name t \<in> seen
                     then [''Duplicate tool name: '' @ SQ @ tool_name t @ SQ @ ''.'']
                     else [])
      @ (if tool_description t = []
                then [''Tool '' @ SQ @ tool_name t @ SQ @ '' has no description.'']
                else [])
      @ (if tool_params t = [] \<and> tool_sample_code t = []
                then [''Tool '' @ SQ @ tool_name t @ SQ @ '' has no params and no sample_code.'']
                else [])"
    using Cons.prems by (auto simp: tool_warnings_def)
  show ?case
    unfolding idx
    by (simp only: validate_tools.simps Let_def rest head list.map concat.simps map_map o_def
          nth_Cons_Suc take_Suc_Cons append_assoc append_Cons append_Nil)
qed

text \<open>
  Claim C6.  For every Manifest, \<^verbatim>\<open>validate\<close> returns exactly the warnings of the
  specification: the missing-name warning, the zero-tools warning, and then, for each
  tool in declaration order, the empty-name warning or else the duplicate-name warning
  (for every occurrence of a name after its first), the empty-description warning and
  the warning for a tool with neither params nor sample code.  The function reads the
  Manifest and returns the warnings only; it changes nothing.
\<close>

theorem validate_eq_spec: "validate m = validate_spec m"
  using validate_tools_spec [of "{}" "[]" "manifest_tools m"]
  by (simp add: validate_def validate_spec_def)

theorem validate_eq_spec_witness:
  "validate_spec (mk_Manifest [] []
      [mk_Tool ''a'' ''d'' [] [] ''x'', mk_Tool ''a'' [] [] [] [], mk_Tool ''a'' ''d'' [] [] ''x''])
   = [''Manifest has no name.'',
      ''Duplicate tool name: '' @ SQ @ ''a'' @ SQ @ ''.'',
      ''Tool '' @ SQ @ ''a'' @ SQ @ '' has no description.'',
      ''Tool '' @ SQ @ ''a'' @ SQ @ '' has no params and no sample_code.'',
      ''Duplicate tool name: '' @ SQ @ ''a'' @ SQ @ ''.'']"
  using validate_eq_spec [of "mk_Manifest [] []
      [mk_Tool ''a'' ''d'' [] [] ''x'', mk_Tool ''a'' [] [] [] [], mk_Tool ''a'' ''d'' [] [] ''x'']",
      symmetric]
  by (simp add: validate_def mk_Manifest_def mk_Tool_def)

subsection \<open>Declaration generator\<close>

text \<open>
  Claim C2 as stated fails: a param with a default and the required flag set is rendered
  without the optional marker.
\<close>

theorem param_to_ts_default_counterexample:
  "param_default (mk_Param ''limit'' ''number'' [] True (Some ''20'')) \<noteq> None
   \<and> param_to_ts (mk_Param ''limit'' ''number'' [] True (Some ''20'')) = ''limit: number''"
  by (simp add: param_to_ts_def mk_Param_def TS_TYPE_MAP_def)

text \<open>
  Claim C2, amended.  The declaration generator renders a param as optional (its name
  followed by \<^verbatim>\<open>?\<close>) exactly when the stored required flag is false; the default plays
  no part in the signature.
\<close>

theorem param_to_ts_optional_iff:
  "prefix (param_name p @ ''?'') (param_to_ts p) \<longleftrightarrow> \<not> param_required p"
  by (simp add: param_to_ts_def Let_def)

theorem param_to_ts_optional_iff_witness:
  "prefix (''limit'' @ ''?'') (param_to_ts (mk_Param ''limit'' ''number'' [] False (Some ''20'')))
   \<and> \<not> prefix (''limit'' @ ''?'') (param_to_ts (mk_Param ''limit'' ''number'' [] True (Some ''20'')))"
  using param_to_ts_optional_iff [of "mk_Param ''limit'' ''number'' [] False (Some ''20'')"]
    param_to_ts_optional_iff [of "mk_Param ''limit'' ''number'' [] True (Some ''20'')"]
  by (simp add: mk_Param_def)





subsection \<open>Client lookups\<close>

lemma get_tool_first:
  "n \<in> set (map tool_name ts) \<Longrightarrow>
   \<exists>i < length ts. get_tool ts n = Some (ts ! i) \<and> tool_name (ts ! i) = n
        \<and> (\<forall>j < i. tool_name (ts ! j) \<noteq> n)"
proof (induction ts)
  case Nil
  then show ?case by simp
next
  case (Cons t ts)
  show ?case
  proof (cases "tool_name t = n")
    case True
    then have "get_tool (t # ts) n = Some ((t # ts) ! 0) \<and> tool_name ((t # ts) ! 0) = n
        \<and> (\<forall>j < 0. tool_name ((t # ts) ! j) \<noteq> n)"
      by simp
    then show ?thesis by blast
  next
    case False
    with Cons.prems have "n \<in> set (map tool_name ts)" by auto
    from Cons.IH [OF this] obtain i where i: "i < length ts" "get_tool ts n = Some (ts ! i)"
      "tool_name (ts ! i) = n" "\<forall>j < i. tool_name (ts ! j) \<noteq> n"
      by blast
    have "\<forall>j < Suc i. tool_name ((t # ts) ! j) \<noteq> n"
    proof (intro allI impI)
      fix j assume "j < Suc i"
      then show "tool_name ((t # ts) ! j) \<noteq> n"
        using False i(4) by (cases j) auto
    qed
    with i False have "Suc i < length (t # ts) \<and> get_tool (t # ts) n = Some ((t # ts) ! Suc i)
        \<and> tool_name ((t # ts) ! Suc i) = n \<and> (\<forall>j < Suc i. tool_name ((t # ts) ! j) \<noteq> n)"
      by simp
    then show ?thesis by blast
  qed
qed

lemma get_tool_absent: "n \<notin> set (map tool_name ts) \<Longrightarrow> get_tool ts n = None"
  by (induction ts) auto

text \<open>
  Claim C9.  With no manifest loaded, \<^verbatim>\<open>get_tool\<close> and \<^verbatim>\<open>list_tools\<close> fail with the
  no-manifest-loaded error (a \<^verbatim>\<open>RuntimeError\<close>).  With a manifest loaded and the name
  absent from it, \<^verbatim>\<open>get_tool\<close> fails with the lookup error (a \<^verbatim>\<open>KeyError\<close>), which is
  not the fetch error.  With the name present it returns the first tool of that name.
\<close>

theorem client_lookup_errors:
  "(client_manifest c = None \<longrightarrow>
      client_get_tool c n = Inl (RuntimeError ''No manifest loaded. Call detect() or load() first.'')
      \<and> list_tools c = Inl (RuntimeError ''No manifest loaded. Call detect() or load() first.''))
   \<and> (client_manifest c = Some m \<and> n \<notin> set (tool_names m) \<longrightarrow>
      client_get_tool c n = Inl (KeyError n (tool_names m))
      \<and> (\<forall>code. client_get_tool c n \<noteq> Inl (HTTPStatusError code)))
   \<and> (client_manifest c = Some m \<and> n \<in> set (tool_names m) \<longrightarrow>
      (\<exists>i < length (manifest_tools m).
          client_get_tool c n = Inr (manifest_tools m ! i)
          \<and> tool_name (manifest_tools m ! i) = n
          \<and> (\<forall>j < i. tool_name (manifest_tools m ! j) \<noteq> n)))"
proof (intro conjI impI)
  assume "client_manifest c = None"
  then show "client_get_tool c n = Inl (RuntimeError ''No manifest loaded. Call detect() or load() first.'')"
    by (simp add: client_get_tool_def)
next
  assume "client_manifest c = None"
  then show "list_tools c = Inl (RuntimeError ''No manifest loaded. Call detect() or load() first.'')"
    by (simp add: list_tools_def)
next
  assume a: "client_manifest c = Some m \<and> n \<notin> set (tool_names m)"
  then show k: "client_get_tool c n = Inl (KeyError n (tool_names m))"
    using get_tool_absent [of n "manifest_tools m"]
    by (simp add: client_get_tool_def Manifest_get_tool_def tool_names_def)
  show "\<forall>code. client_get_tool c n \<noteq> Inl (HTTPStatusError code)"
    by (simp add: k)
next
  assume a: "client_manifest c = Some m \<and> n \<in> set (tool_names m)"
  then have "n \<in> set (map tool_name (manifest_tools m))"
    by (simp add: tool_names_def)
  from get_tool_first [OF this] obtain i where i: "i < length (manifest_tools m)"
      "get_tool (manifest_tools m) n = Some (manifest_tools m ! i)"
      "tool_name (manifest_tools m ! i) = n" "\<forall>j < i. tool_name (manifest_tools m ! j) \<noteq> n"
    by blast
  have "client_get_tool c n = Inr (manifest_tools m ! i)"
    using a i(2) by (simp add: client_get_tool_def Manifest_get_tool_def)
  with i show "\<exists>i < length (manifest_tools m).
          client_get_tool c n = Inr (manifest_tools m ! i)
          \<and> tool_name (manifest_tools m ! i) = n
          \<and> (\<forall>j < i. tool_name (manifest_tools m ! j) \<noteq> n)"
    by blast
qed

theorem client_lookup_errors_witness:
  "client_manifest \<lparr>client_manifest = None\<rparr> = None
   \<and> client_get_tool \<lparr>client_manifest = None\<rparr> ''search''
       = Inl (RuntimeError ''No manifest loaded. Call detect() or load() first.'')
   \<and> ''basket'' \<notin> set (tool_names (mk_Manifest ''Shop'' []
         [mk_Tool ''search'' ''first'' [] [] [], mk_Tool ''search'' ''second'' [] [] []]))
   \<and> client_get_tool \<lparr>client_manifest = Some (mk_Manifest ''Shop'' []
         [mk_Tool ''search'' ''first'' [] [] [], mk_Tool ''search'' ''second'' [] [] []])\<rparr> ''basket''
       = Inl (KeyError ''basket'' [''search'', ''search''])
   \<and> ''search'' \<in> set (tool_names (mk_Manifest ''Shop'' []
         [mk_Tool ''search'' ''first'' [] [] [], mk_Tool ''search'' ''second'' [] [] []]))
   \<and> client_get_tool \<lparr>client_manifest = Some (mk_Manifest ''Shop'' []
         [mk_Tool ''search'' ''first'' [] [] [], mk_Tool ''search'' ''second'' [] [] []])\<rparr> ''search''
       = Inr (mk_Tool ''search'' ''first'' [] [] [])"
  using client_lookup_errors [of "\<lparr>client_manifest = None\<rparr>" "''search''"]
    client_lookup_errors [of "\<lparr>client_manifest = Some (mk_Manifest ''Shop'' []
         [mk_Tool ''search'' ''first'' [] [] [], mk_Tool ''search'' ''second'' [] [] []])\<rparr>"
      "''basket''"
      "mk_Manifest ''Shop'' []
         [mk_Tool ''search'' ''first'' [] [] [], mk_Tool ''search'' ''second'' [] [] []]"]
    client_lookup_errors [of "\<lparr>client_manifest = Some (mk_Manifest ''Shop'' []
         [mk_Tool ''search'' ''first'' [] [] [], mk_Tool ''search'' ''second'' [] [] []])\<rparr>"
      "''search''"
      "mk_Manifest ''Shop'' []
         [mk_Tool ''search'' ''first'' [] [] [], mk_Tool ''search'' ''second'' [] [] []]"]
  by (simp add: client_get_tool_def Manifest_get_tool_def tool_names_def mk_Manifest_def
        mk_Tool_def)

section \<open>Properties of the parser\<close>

subsection \<open>Dialect selection\<close>

lemma splitlines_Nil_iff: "splitlines s = [] \<longleftrightarrow> s = []"
  by (induction s rule: splitlines.induct) (auto split: list.splits)

lemma search_tool_iff:
  "search_tool bol s \<longleftrightarrow>
     (\<exists>pre post. s = pre @ post \<and> tool_marker_at post
        \<and> (if pre = [] then bol else last pre = CHR 0x0A))"
proof (induction s arbitrary: bol)
  case Nil
  then show ?case by (simp add: tool_marker_at_def)
next
  case (Cons c cs)
  show ?case
  proof
    assume "search_tool bol (c # cs)"
    then consider "bol \<and> tool_marker_at (c # cs)" | "search_tool (c = CHR 0x0A) cs"
      by auto
    then show "\<exists>pre post. c # cs = pre @ post \<and> tool_marker_at post
        \<and> (if pre = [] then bol else last pre = CHR 0x0A)"
    proof cases
      case 1
      then have "c # cs = [] @ (c # cs) \<and> tool_marker_at (c # cs)
          \<and> (if ([]::string) = [] then bol else last [] = CHR 0x0A)"
        by simp
      then show ?thesis by blast
    next
      case 2
      then obtain pre post where p: "cs = pre @ post" "tool_marker_at post"
          "if pre = [] then c = CHR 0x0A else last pre = CHR 0x0A"
        using Cons.IH by blast
      then have "c # cs = (c # pre) @ post \<and> tool_marker_at post
          \<and> (if c # pre = [] then bol else last (c # pre) = CHR 0x0A)"
        by auto
      then show ?thesis by blast
    qed
  next
    assume "\<exists>pre post. c # cs = pre @ post \<and> tool_marker_at post
        \<and> (if pre = [] then bol else last pre = CHR 0x0A)"
    then obtain pre post where p: "c # cs = pre @ post" "tool_marker_at post"
        "if pre = [] then bol else last pre = CHR 0x0A"
      by blast
    show "search_tool bol (c # cs)"
    proof (cases pre)
      case Nil
      with p have "bol \<and> tool_marker_at (c # cs)" by auto
      then show ?thesis by simp
    next
      case (Cons d pre')
      with p have "cs = pre' @ post \<and> tool_marker_at post
          \<and> (if pre' = [] then c = CHR 0x0A else last pre' = CHR 0x0A)"
        by (auto split: if_splits)
      then have "search_tool (c = CHR 0x0A) cs"
        using Cons.IH by blast
      then show ?thesis by simp
    qed
  qed
qed

lemma tool_marker_at_iff:
  "tool_marker_at s \<longleftrightarrow> (\<exists>w post. s = ''tool:'' @ w # post \<and> is_space w)"
proof
  assume a: "tool_marker_at s"
  then obtain r where r: "s = ''tool:'' @ r"
    by (auto simp: tool_marker_at_def prefix_def)
  with a obtain w post where "r = w # post" "is_space w"
    by (auto simp: tool_marker_at_def split: list.splits)
  with r show "\<exists>w post. s = ''tool:'' @ w # post \<and> is_space w" by blast
next
  assume "\<exists>w post. s = ''tool:'' @ w # post \<and> is_space w"
  then show "tool_marker_at s"
    by (auto simp: tool_marker_at_def)
qed

lemma TOOL_HEADER_RE_match_marker: "TOOL_HEADER_RE_match l \<noteq> None \<Longrightarrow> tool_marker_at l"
  by (auto simp: TOOL_HEADER_RE_match_def split: if_splits)

lemma tool_marker_at_append: "tool_marker_at l \<Longrightarrow> tool_marker_at (l @ post)"
  by (auto simp: tool_marker_at_iff)

text \<open>
  Claim C5 as stated fails: the text \<^verbatim>\<open>tool: x\<close> has no line of the shape
  \<^verbatim>\<open>tool: <identifier>(<arglist>)\<close>, and \<^verbatim>\<open>parse\<close> uses the compact dialect for it
  (the tool \<open>x\<close> is found; the heading dialect would find no tool).
\<close>

theorem dialect_selection_counterexample:
  "TOOL_HEADER_RE_match ''tool: x'' = None
   \<and> uses_compact (strip ''tool: x'')
   \<and> parse ''tool: x'' = Inr \<lparr>manifest_name = [], manifest_description = ''tool: x'',
        manifest_version = ''0.1'', manifest_tools = [mk_Tool ''x'' [] [] [] []],
        manifest_content = ''tool: x''\<rparr>"
  by code_simp

text \<open>
  Claim C5, amended.  \<^verbatim>\<open>parse\<close> uses the compact dialect for the whole document exactly
  when, in the stripped text, \<^verbatim>\<open>tool:\<close> followed by at least one whitespace character
  occurs at the start of the text or right after a newline; in particular it does so
  whenever a line of the shape \<^verbatim>\<open>tool: <identifier>(<arglist>)\<close> starts there.  Otherwise
  it uses the heading dialect.  The decision is taken once for the document.
\<close>

theorem dialect_selection:
  "(uses_compact s \<longleftrightarrow>
      (\<exists>pre w post. s = pre @ ''tool:'' @ w # post \<and> is_space w
          \<and> (pre = [] \<or> last pre = CHR 0x0A)))
   \<and> ((\<exists>pre l post. s = pre @ l @ post \<and> (pre = [] \<or> last pre = CHR 0x0A)
          \<and> TOOL_HEADER_RE_match l \<noteq> None) \<longrightarrow> uses_compact s)
   \<and> (strip text \<noteq> [] \<longrightarrow>
        parse text =
          (if uses_compact (strip text)
           then (case parse_compact (strip text) of
                   Inl e \<Rightarrow> Inl e
                 | Inr m \<Rightarrow> Inr (m\<lparr>manifest_content := strip text\<rparr>))
           else Inr ((parse_heading (strip text))\<lparr>manifest_content := strip text\<rparr>)))"
proof (intro conjI)
  show iff: "uses_compact s \<longleftrightarrow>
      (\<exists>pre w post. s = pre @ ''tool:'' @ w # post \<and> is_space w
          \<and> (pre = [] \<or> last pre = CHR 0x0A))"
  proof
    assume "uses_compact s"
    then obtain pre post where p: "s = pre @ post" "tool_marker_at post"
        "pre = [] \<or> last pre = CHR 0x0A"
      unfolding uses_compact_def search_tool_iff by (auto split: if_splits)
    from p(2) obtain w post' where "post = ''tool:'' @ w # post'" "is_space w"
      unfolding tool_marker_at_iff by blast
    with p show "\<exists>pre w post. s = pre @ ''tool:'' @ w # post \<and> is_space w
          \<and> (pre = [] \<or> last pre = CHR 0x0A)"
      by blast
  next
    assume "\<exists>pre w post. s = pre @ ''tool:'' @ w # post \<and> is_space w
          \<and> (pre = [] \<or> last pre = CHR 0x0A)"
    then obtain pre w post where p: "s = pre @ ''tool:'' @ w # post" "is_space w"
        "pre = [] \<or> last pre = CHR 0x0A"
      by blast
    then have "tool_marker_at (''tool:'' @ w # post)"
      unfolding tool_marker_at_iff by blast
    with p have "s = pre @ (''tool:'' @ w # post) \<and> tool_marker_at (''tool:'' @ w # post)
        \<and> (if pre = [] then True else last pre = CHR 0x0A)"
      by auto
    then show "uses_compact s"
      unfolding uses_compact_def search_tool_iff by blast
  qed
  show "(\<exists>pre l post. s = pre @ l @ post \<and> (pre = [] \<or> last pre = CHR 0x0A)
          \<and> TOOL_HEADER_RE_match l \<noteq> None) \<longrightarrow> uses_compact s"
  proof
    assume "\<exists>pre l post. s = pre @ l @ post \<and> (pre = [] \<or> last pre = CHR 0x0A)
          \<and> TOOL_HEADER_RE_match l \<noteq> None"
    then obtain pre l post where p: "s = pre @ l @ post" "pre = [] \<or> last pre = CHR 0x0A"
        "TOOL_HEADER_RE_match l \<noteq> None"
      by blast
    then have "tool_marker_at (l @ post)"
      by (simp add: TOOL_HEADER_RE_match_marker tool_marker_at_append)
    with p have "s = pre @ (l @ post) \<and> tool_marker_at (l @ post)
        \<and> (if pre = [] then True else last pre = CHR 0x0A)"
      by auto
    then show "uses_compact s"
      unfolding uses_compact_def search_tool_iff by blast
  qed
  show "strip text \<noteq> [] \<longrightarrow>
        parse text =
          (if uses_compact (strip text)
           then (case parse_compact (strip text) of
                   Inl e \<Rightarrow> Inl e
                 | Inr m \<Rightarrow> Inr (m\<lparr>manifest_content := strip text\<rparr>))
           else Inr ((parse_heading (strip text))\<lparr>manifest_content := strip text\<rparr>))"
    by (simp add: parse_def Let_def)
qed

theorem dialect_selection_witness:
  "TOOL_HEADER_RE_match ''tool: f(a)'' \<noteq> None
   \<and> uses_compact ''tool: f(a)''
   \<and> strip ''tool: f(a)'' \<noteq> []
   \<and> parse ''tool: f(a)'' =
        (case parse_compact (strip ''tool: f(a)'') of
           Inl e \<Rightarrow> Inl e
         | Inr m \<Rightarrow> Inr (m\<lparr>manifest_content := strip ''tool: f(a)''\<rparr>))"
proof -
  have m: "TOOL_HEADER_RE_match ''tool: f(a)'' \<noteq> None"
    by code_simp
  have ne: "strip ''tool: f(a)'' \<noteq> []"
    by code_simp
  have s: "strip ''tool: f(a)'' = ''tool: f(a)''"
    by code_simp
  have "''tool: f(a)'' = [] @ ''tool: f(a)'' @ [] \<and> (([]::string) = [] \<or> last [] = CHR 0x0A)
      \<and> TOOL_HEADER_RE_match ''tool: f(a)'' \<noteq> None"
    using m by simp
  then have h: "\<exists>pre l post. ''tool: f(a)'' = pre @ l @ post \<and> (pre = [] \<or> last pre = CHR 0x0A)
      \<and> TOOL_HEADER_RE_match l \<noteq> None"
    by blast
  from dialect_selection [of "''tool: f(a)''" "''tool: f(a)''"] h ne
  have c: "uses_compact ''tool: f(a)''"
    and p: "parse ''tool: f(a)'' =
          (if uses_compact (strip ''tool: f(a)'')
           then (case parse_compact (strip ''tool: f(a)'') of
                   Inl e \<Rightarrow> Inl e
                 | Inr m \<Rightarrow> Inr (m\<lparr>manifest_content := strip ''tool: f(a)''\<rparr>))
           else Inr ((parse_heading (strip ''tool: f(a)''))\<lparr>manifest_content := strip ''tool: f(a)''\<rparr>))"
    by blast+
  from p c s have "parse ''tool: f(a)'' =
        (case parse_compact (strip ''tool: f(a)'') of
           Inl e \<Rightarrow> Inl e
         | Inr m \<Rightarrow> Inr (m\<lparr>manifest_content := strip ''tool: f(a)''\<rparr>))"
    by simp
  with m c ne show ?thesis by blast
qed

subsection \<open>Raising and the manifest header\<close>

lemma parse_compact_tool_blank:
  "strip b = [] \<Longrightarrow> parse_compact_tool b = Inl (ValueError ''Empty tool block'')"
  by (simp add: parse_compact_tool_def)

lemma parse_compact_tool_nonblank:
  "strip b \<noteq> [] \<Longrightarrow> \<exists>t. parse_compact_tool b = Inr t"
  by (auto simp: parse_compact_tool_def Let_def splitlines_Nil_iff split: list.splits prod.splits)

lemma parse_compact_tools_cases:
  "parse_compact_tools bs =
     (if \<exists>b \<in> set bs. strip b = [] then Inl (ValueError ''Empty tool block'')
      else Inr (map (\<lambda>b. projr (parse_compact_tool b)) bs))"
proof (induction bs)
  case Nil
  then show ?case by simp
next
  case (Cons b bs)
  show ?case
  proof (cases "strip b = []")
    case True
    then show ?thesis by (simp add: parse_compact_tool_blank)
  next
    case False
    then obtain t where "parse_compact_tool b = Inr t"
      using parse_compact_tool_nonblank by blast
    with False Cons.IH show ?thesis by simp
  qed
qed

lemma uses_compact_nonempty: "uses_compact s \<Longrightarrow> s \<noteq> []"
  by (auto simp: uses_compact_def)

text \<open>
  Claim C3 as stated fails: on a text with two \<^verbatim>\<open>tool:\<close> markers and nothing between
  them \<^verbatim>\<open>parse\<close> raises \<^verbatim>\<open>ValueError\<close>.
\<close>

theorem parse_raises_counterexample:
  "parse (''tool: '' @ NL @ ''tool: x()'') = Inl (ValueError ''Empty tool block'')"
  by code_simp

text \<open>
  Claim C3, amended.  \<^verbatim>\<open>parse\<close> returns the empty Manifest for blank input and returns
  a Manifest, without raising, for every input on which the heading dialect is used (so
  for every input that matches neither grammar).  On input for which the compact dialect
  is used it raises \<^verbatim>\<open>ValueError("Empty tool block")\<close> when some tool block, the text
  between one \<^verbatim>\<open>tool:\<close> marker and the next, is blank, and returns a Manifest otherwise.
\<close>

theorem parse_raises_iff:
  "(strip text = [] \<longrightarrow> parse text = Inr empty_Manifest)
   \<and> (\<not> uses_compact (strip text) \<longrightarrow> (\<exists>m. parse text = Inr m))
   \<and> (uses_compact (strip text) \<longrightarrow>
        (if \<exists>b \<in> set (drop 1 (split_tool True (strip text))). strip b = []
         then parse text = Inl (ValueError ''Empty tool block'')
         else (\<exists>m. parse text = Inr m)))"
proof (intro conjI impI)
  assume "strip text = []"
  then show "parse text = Inr empty_Manifest"
    by (simp add: parse_def)
next
  assume "\<not> uses_compact (strip text)"
  then show "\<exists>m. parse text = Inr m"
    by (simp add: parse_def Let_def)
next
  assume c: "uses_compact (strip text)"
  then have ne: "strip text \<noteq> []"
    by (rule uses_compact_nonempty)
  obtain name pl where pre: "preamble_loop [] [] (splitlines (strip text)) = (name, pl)"
    by (cases "preamble_loop [] [] (splitlines (strip text))")
  show "if \<exists>b \<in> set (drop 1 (split_tool True (strip text))). strip b = []
         then parse text = Inl (ValueError ''Empty tool block'')
         else (\<exists>m. parse text = Inr m)"
    using c ne pre
    by (simp add: parse_def Let_def parse_compact_def parse_compact_tools_cases)
qed

theorem parse_raises_iff_witness:
  "strip ''  '' = []
   \<and> parse ''  '' = Inr empty_Manifest
   \<and> \<not> uses_compact (strip ''hello'')
   \<and> (\<exists>m. parse ''hello'' = Inr m)
   \<and> uses_compact (strip (''tool: '' @ NL @ ''tool: x()''))
   \<and> parse (''tool: '' @ NL @ ''tool: x()'') = Inl (ValueError ''Empty tool block'')
   \<and> uses_compact (strip ''tool: x()'')
   \<and> (\<exists>m. parse ''tool: x()'' = Inr m)"
proof -
  have h1: "strip ''  '' = []" by code_simp
  have h2: "\<not> uses_compact (strip ''hello'')" by code_simp
  have h3: "uses_compact (strip (''tool: '' @ NL @ ''tool: x()''))" by code_simp
  have h4: "uses_compact (strip ''tool: x()'')" by code_simp
  have b3: "\<exists>b \<in> set (drop 1 (split_tool True (strip (''tool: '' @ NL @ ''tool: x()'')))).
      strip b = []"
    by code_simp
  have b4: "\<not> (\<exists>b \<in> set (drop 1 (split_tool True (strip ''tool: x()''))). strip b = [])"
    by code_simp
  have c1: "parse ''  '' = Inr empty_Manifest"
    using parse_raises_iff [of "''  ''"] h1 by blast
  have c2: "\<exists>m. parse ''hello'' = Inr m"
    using parse_raises_iff [of "''hello''"] h2 by blast
  have c3: "parse (''tool: '' @ NL @ ''tool: x()'') = Inl (ValueError ''Empty tool block'')"
    using parse_raises_iff [of "''tool: '' @ NL @ ''tool: x()''"] h3 b3 by presburger
  have c4: "\<exists>m. parse ''tool: x()'' = Inr m"
    using parse_raises_iff [of "''tool: x()''"] h4 b4 by presburger
  from h1 h2 h3 h4 c1 c2 c3 c4 show ?thesis by blast
qed

lemma header_loop_no_h1:
  "\<forall>l \<in> set ls. \<not> prefix ''# '' l \<Longrightarrow> header_loop [] ds ls = ([], ds)"
  by (induction ls) auto

lemma header_loop_name:
  "prefix ''# '' l \<Longrightarrow> \<forall>y \<in> set ys. \<not> prefix ''# '' y \<Longrightarrow>
   fst (header_loop n ds (xs @ l # ys)) = strip (removeprefix ''# '' l)"
proof (induction xs arbitrary: n ds)
  case Nil
  have "fst (header_loop n' ds' ys) = n'" for n' ds'
    using Nil(2) by (induction ys arbitrary: ds') auto
  with Nil(1) show ?case by simp
next
  case (Cons x xs)
  then show ?case by simp
qed


lemma parse_manifest_header_eq:
  "parse_manifest_header header =
     (fst (header_loop [] [] (splitlines (strip header))),
      strip (join NL (snd (header_loop [] [] (splitlines (strip header))))))"
  by (cases "header_loop [] [] (splitlines (strip header))")
     (simp add: parse_manifest_header_def)



subsection \<open>Required flag and default\<close>

lemma in_set_map_filter:
  "p \<in> set (List.map_filter f xs) \<Longrightarrow> \<exists>x \<in> set xs. f x = Some p"
  by (auto simp: List.map_filter_def)

















text \<open>
  Claim C7: the code departs from it on a tool block whose \<^verbatim>\<open>params\<close> section is present
  and declares no param.  The section is there, and the param \<open>a\<close> is synthesized from
  the header argument list all the same.
\<close>

theorem params_synthesized_despite_section:
  "parse (''tool: f(a)'' @ NL @ ''  params:'' @ NL @ ''  description: d'')
   = Inr \<lparr>manifest_name = [], manifest_description = [], manifest_version = ''0.1'',
        manifest_tools = [mk_Tool ''f'' ''d'' [mk_Param ''a'' ''string'' [] True None] [] []],
        manifest_content = ''tool: f(a)'' @ NL @ ''  params:'' @ NL @ ''  description: d''\<rparr>"
  by code_simp

section \<open>Round trip through the serializer\<close>

(* ---------- whitespace and strip ---------- *)

lemma strip_Nil [simp]: "strip [] = []"
  by (simp add: strip_def rstrip_def lstrip_def)

lemma rstrip_append_spaces:
  assumes "list_all is_space w"
  shows "rstrip (x @ w) = rstrip x"
proof -
  have "\<And>c. c \<in> set (rev w) \<Longrightarrow> is_space c"
    using assms by (simp add: list_all_iff)
  then have "dropWhile is_space (rev w @ rev x) = dropWhile is_space (rev x)"
    by (rule dropWhile_append2)
  then show ?thesis by (simp add: rstrip_def)
qed

lemma rstrip_id: "x \<noteq> [] \<Longrightarrow> \<not> is_space (last x) \<Longrightarrow> rstrip x = x"
  by (cases x rule: rev_cases) (simp_all add: rstrip_def)

lemma rstrip_Nil [simp]: "rstrip [] = []"
  by (simp add: rstrip_def)

lemma lstrip_id: "x = [] \<or> \<not> is_space (hd x) \<Longrightarrow> lstrip x = x"
  by (cases x) (simp_all add: lstrip_def)

lemma strip_core:
  "x \<noteq> [] \<Longrightarrow> \<not> is_space (hd x) \<Longrightarrow> \<not> is_space (last x) \<Longrightarrow> list_all is_space w \<Longrightarrow>
   strip (x @ w) = x"
proof -
  assume a: "x \<noteq> []" "\<not> is_space (hd x)" "\<not> is_space (last x)" "list_all is_space w"
  have "lstrip (x @ w) = x @ w"
    using a by (intro lstrip_id) simp
  then show ?thesis
    using a by (simp add: strip_def rstrip_append_spaces rstrip_id)
qed

lemma strip_spaces: "list_all is_space w \<Longrightarrow> strip w = []"
proof -
  assume "list_all is_space w"
  then have h: "dropWhile is_space w = []"
    by (simp add: list_all_iff)
  show ?thesis by (simp only: strip_def lstrip_def h rstrip_Nil)
qed

lemma stripped_ends:
  "strip s = s \<Longrightarrow> s \<noteq> [] \<Longrightarrow> \<not> is_space (hd s) \<and> \<not> is_space (last s)"
proof -
  assume a: "strip s = s" "s \<noteq> []"
  have h: "\<not> is_space (hd s)"
  proof
    assume sp: "is_space (hd s)"
    have "length (strip s) \<le> length (lstrip s)"
      by (simp add: strip_def rstrip_def) (metis length_dropWhile_le length_rev)
    moreover have "length (lstrip s) < length s"
      using a(2) sp by (cases s) (auto simp: lstrip_def intro: le_imp_less_Suc length_dropWhile_le)
    ultimately show False using a(1) by simp
  qed
  then have ls: "lstrip s = s" by (simp add: lstrip_id)
  have "\<not> is_space (last s)"
  proof
    assume sp: "is_space (last s)"
    obtain ys y where s: "s = ys @ [y]"
      using a(2) by (cases s rule: rev_cases) auto
    with sp have "rstrip s = rev (dropWhile is_space (rev ys))"
      by (simp add: rstrip_def)
    moreover have "length (dropWhile is_space (rev ys)) \<le> length (rev ys)"
      by (rule length_dropWhile_le)
    ultimately have "length (rstrip s) < length s"
      using s by simp
    then show False using a(1) ls by (simp add: strip_def)
  qed
  with h show ?thesis by simp
qed

lemma strip_stripped_append:
  "strip s = s \<Longrightarrow> s \<noteq> [] \<Longrightarrow> list_all is_space w \<Longrightarrow> strip (s @ w) = s"
  using stripped_ends strip_core by blast

(* ---------- join / split_char ---------- *)

lemma join_Cons: "ls \<noteq> [] \<Longrightarrow> join sep (l # ls) = l @ sep @ join sep ls"
  by (cases ls) simp_all

lemma split_char_not_Nil [simp]: "split_char sep s \<noteq> []"
  by (induction s) (auto split: list.splits)

lemma split_char_no_sep: "sep \<notin> set s \<Longrightarrow> split_char sep s = [s]"
  by (induction s) auto

lemma split_char_append:
  "sep \<notin> set l \<Longrightarrow> split_char sep (l @ sep # rest) = l # split_char sep rest"
  by (induction l) auto

lemma join_split_char: "join [sep] (split_char sep s) = s"
proof (induction s)
  case Nil
  then show ?case by simp
next
  case (Cons c s)
  obtain l ls where sp: "split_char sep s = l # ls"
    by (cases "split_char sep s") auto
  with Cons show ?case by (cases ls) auto
qed

(* ---------- splitlines ---------- *)

lemma is_linebreak_NL [simp]: "is_linebreak (CHR 0x0A)"
  by (simp add: is_linebreak_def)

lemma is_space_NL [simp]: "is_space (CHR 0x0A)"
  by (simp add: is_space_def)

lemma is_linebreak_space: "is_linebreak c \<Longrightarrow> is_space c"
  by (auto simp: is_linebreak_def is_space_def Let_def)

lemma splitlines_eq_split_char:
  "list_all (\<lambda>c. is_linebreak c \<longrightarrow> c = CHR 0x0A) s \<Longrightarrow> s \<noteq> [] \<Longrightarrow> last s \<noteq> CHR 0x0A \<Longrightarrow>
   splitlines s = split_char (CHR 0x0A) s"
proof (induction s rule: splitlines.induct)
  case 1
  then show ?case by simp
next
  case (2 c)
  then show ?case by auto
next
  case (3 c d cs)
  have nl: "c = CHR 0x0A \<longleftrightarrow> is_linebreak c" using "3.prems"(1) by auto
  have ncr: "c \<noteq> CHR 0x0D"
  proof
    assume "c = CHR 0x0D"
    then have "is_linebreak c" by (simp add: is_linebreak_def)
    with nl \<open>c = CHR 0x0D\<close> show False by simp
  qed
  have p: "list_all (\<lambda>c. is_linebreak c \<longrightarrow> c = CHR 0x0A) (d # cs)" "d # cs \<noteq> []"
      "last (d # cs) \<noteq> CHR 0x0A"
    using "3.prems" by auto
  have rest: "splitlines (d # cs) = split_char (CHR 0x0A) (d # cs)"
  proof (cases "is_linebreak c")
    case True
    with ncr show ?thesis using "3.IH"(2) [OF _ True p] by simp
  next
    case False
    with ncr show ?thesis using "3.IH"(3) [OF _ False p] by simp
  qed
  show ?case
    using ncr nl rest by (auto split: list.splits)
qed

lemma splitlines_line:
  "list_all (\<lambda>c. \<not> is_linebreak c) l \<Longrightarrow> l \<noteq> [] \<Longrightarrow> splitlines l = [l]"
  by (induction l rule: splitlines.induct) (auto split: list.splits)

lemma splitlines_line_NL:
  "list_all (\<lambda>c. \<not> is_linebreak c) l \<Longrightarrow> rest \<noteq> [] \<Longrightarrow>
   splitlines (l @ CHR 0x0A # rest) = l # splitlines rest"
proof (induction l rule: splitlines.induct)
  case 1
  then show ?case by (cases rest) (auto simp: is_linebreak_def)
next
  case (2 c)
  then show ?case by (cases rest) (auto simp: is_linebreak_def)
next
  case (3 c d cs)
  then show ?case by (auto simp: is_linebreak_def split: list.splits)
qed

lemma split_bol_not_Nil [simp]: "split_bol pat b s \<noteq> []"
  by (induction pat b s rule: split_bol.induct) (auto split: list.splits)

lemma split_bol_single:
  "split_bol pat b (c # cs) = [c # cs] \<longleftrightarrow>
     \<not> (b \<and> pat \<noteq> [] \<and> prefix pat (c # cs)) \<and> split_bol pat (c = CHR 0x0A) cs = [cs]"
  by (auto split: list.splits)

lemma split_bol_match:
  "pat \<noteq> [] \<Longrightarrow> prefix pat (c # cs) \<Longrightarrow>
   split_bol pat True (c # cs) = [] # split_bol pat False (drop (length pat) (c # cs))"
  by simp

lemma split_bol_nomatch:
  "\<not> (b \<and> pat \<noteq> [] \<and> prefix pat (c # cs)) \<Longrightarrow>
   split_bol pat (c = CHR 0x0A) cs = p # ps \<Longrightarrow>
   split_bol pat b (c # cs) = (c # p) # ps"
  by auto

declare split_bol.simps(2) [simp del]

lemma prefix_straddle:
  assumes "prefix pat (s @ t)" "\<not> prefix pat s"
  shows "\<exists>z. z \<noteq> [] \<and> pat = s @ z \<and> prefix z t"
proof -
  from assms obtain us where "pat = s @ us" "prefix us t"
    by (auto simp: prefix_append)
  moreover from this assms(2) have "us \<noteq> []" by auto
  ultimately show ?thesis by blast
qed

lemma no_straddle_NL:
  assumes "CHR 0x0A \<notin> set pat" "\<not> prefix pat s"
  shows "\<not> prefix pat (s @ CHR 0x0A # t)"
proof
  assume "prefix pat (s @ CHR 0x0A # t)"
  from prefix_straddle [OF this assms(2)] obtain z where z: "z \<noteq> []" "pat = s @ z"
      "prefix z (CHR 0x0A # t)"
    by blast
  then have "hd z = CHR 0x0A" by (cases z) auto
  with z(1,2) assms(1) show False by (cases z) auto
qed

lemma split_bol_line:
  "CHR 0x0A \<notin> set l \<Longrightarrow> (b \<longrightarrow> \<not> prefix pat l) \<Longrightarrow> split_bol pat b l = [l]"
proof (induction l arbitrary: b)
  case Nil
  then show ?case by simp
next
  case (Cons c cs)
  then have "split_bol pat False cs = [cs]" by simp
  with Cons.prems show ?case by (auto simp: split_bol_single)
qed

lemma split_bol_nl:
  assumes "CHR 0x0A \<notin> set pat"
  shows "split_bol pat b s1 = [s1] \<Longrightarrow> split_bol pat True s2 = [s2] \<Longrightarrow>
     split_bol pat b (s1 @ CHR 0x0A # s2) = [s1 @ CHR 0x0A # s2]"
proof (induction s1 arbitrary: b)
  case Nil
  have "\<not> (pat \<noteq> [] \<and> prefix pat (CHR 0x0A # s2))"
    using assms by (cases pat) auto
  with Nil show ?case by (auto simp: split_bol_single)
next
  case (Cons c cs)
  from Cons.prems(1) have a: "\<not> (b \<and> pat \<noteq> [] \<and> prefix pat (c # cs))"
      "split_bol pat (c = CHR 0x0A) cs = [cs]"
    by (simp_all add: split_bol_single)
  have "\<not> (b \<and> pat \<noteq> [] \<and> prefix pat ((c # cs) @ CHR 0x0A # s2))"
    using a(1) no_straddle_NL [OF assms, of "c # cs" s2] by blast
  moreover have "split_bol pat (c = CHR 0x0A) (cs @ CHR 0x0A # s2) = [cs @ CHR 0x0A # s2]"
    by (rule Cons.IH [OF a(2) Cons.prems(2)])
  ultimately show ?case by (simp add: split_bol_single)
qed

lemma split_bol_True_False:
  "split_bol pat True s = [s] \<Longrightarrow> split_bol pat False s = [s]"
  by (cases s) (auto simp: split_bol_single)

lemma split_bol_at_pat:
  assumes "CHR 0x0A \<notin> set pat" "pat \<noteq> []"
  shows "split_bol pat b s = [s] \<Longrightarrow> (if s = [] then b else last s = CHR 0x0A) \<Longrightarrow>
     split_bol pat b (s @ pat @ rest) = s # split_bol pat False rest"
proof (induction s arbitrary: b)
  case Nil
  then have b by simp
  obtain p ps where pat: "pat = p # ps" using assms(2) by (cases pat) auto
  have "split_bol pat True (p # (ps @ rest)) =
      [] # split_bol pat False (drop (length pat) (p # (ps @ rest)))"
    using pat by (intro split_bol_match) auto
  with \<open>b\<close> pat show ?case by simp
next
  case (Cons c cs)
  from Cons.prems(1) have a: "\<not> (b \<and> pat \<noteq> [] \<and> prefix pat (c # cs))"
      "split_bol pat (c = CHR 0x0A) cs = [cs]"
    by (simp_all add: split_bol_single)
  obtain ys where ys: "c # cs = ys @ [CHR 0x0A]"
    using Cons.prems(2) by (cases "c # cs" rule: rev_cases) auto
  have "\<not> (b \<and> pat \<noteq> [] \<and> prefix pat ((c # cs) @ pat @ rest))"
  proof
    assume h: "b \<and> pat \<noteq> [] \<and> prefix pat ((c # cs) @ pat @ rest)"
    with a(1) have np: "\<not> prefix pat (c # cs)" by blast
    from h ys have "prefix pat (ys @ CHR 0x0A # pat @ rest)" by simp
    moreover have "\<not> prefix pat ys"
      using np ys by (metis prefix_prefix)
    ultimately show False using no_straddle_NL [OF assms(1)] by blast
  qed
  moreover have "if cs = [] then c = CHR 0x0A else last cs = CHR 0x0A"
    using Cons.prems(2) by (auto split: if_splits)
  then have "split_bol pat (c = CHR 0x0A) (cs @ pat @ rest) = cs # split_bol pat False rest"
    by (intro Cons.IH [OF a(2)])
  ultimately have "split_bol pat b (c # (cs @ pat @ rest)) = (c # cs) # split_bol pat False rest"
    by (intro split_bol_nomatch) auto
  then show ?case by simp
qed

lemma split_bol_pieces:
  assumes "CHR 0x0A \<notin> set pat" "pat \<noteq> []"
  shows "\<forall>p \<in> set ps. split_bol pat False p = [p] \<Longrightarrow>
     \<forall>p \<in> set (butlast ps). p \<noteq> [] \<and> last p = CHR 0x0A \<Longrightarrow>
     split_bol pat b h = [h] \<Longrightarrow>
     (ps \<noteq> [] \<longrightarrow> (if h = [] then b else last h = CHR 0x0A)) \<Longrightarrow>
     split_bol pat b (h @ concat (map ((@) pat) ps)) = h # ps"
proof (induction ps arbitrary: h b)
  case Nil
  then show ?case by simp
next
  case (Cons p ps)
  have "split_bol pat b (h @ pat @ (p @ concat (map ((@) pat) ps)))
      = h # split_bol pat False (p @ concat (map ((@) pat) ps))"
    using Cons.prems(3,4) by (intro split_bol_at_pat [OF assms]) auto
  moreover have "split_bol pat False (p @ concat (map ((@) pat) ps)) = p # ps"
  proof (rule Cons.IH)
    show "\<forall>p \<in> set ps. split_bol pat False p = [p]" using Cons.prems(1) by simp
    show "\<forall>p \<in> set (butlast ps). p \<noteq> [] \<and> last p = CHR 0x0A"
      using Cons.prems(2) by (auto split: if_splits)
    show "split_bol pat False p = [p]" using Cons.prems(1) by simp
    show "ps \<noteq> [] \<longrightarrow> (if p = [] then False else last p = CHR 0x0A)"
      using Cons.prems(2) by auto
  qed
  ultimately show ?case by simp
qed

lemma split_char_lines_no_sep: "\<forall>l \<in> set (split_char sep s). sep \<notin> set l"
  by (induction s) (auto split: list.splits)

lemma split_bol_join:
  assumes "CHR 0x0A \<notin> set pat"
  shows "\<forall>l \<in> set (l0 # ls). CHR 0x0A \<notin> set l \<Longrightarrow> (b \<longrightarrow> \<not> prefix pat l0) \<Longrightarrow>
     \<forall>l \<in> set ls. \<not> prefix pat l \<Longrightarrow>
     split_bol pat b (join [CHR 0x0A] (l0 # ls)) = [join [CHR 0x0A] (l0 # ls)]"
proof (induction ls arbitrary: l0 b)
  case Nil
  then show ?case by (simp add: split_bol_line)
next
  case (Cons l ls)
  have 1: "split_bol pat b l0 = [l0]"
    using Cons.prems by (intro split_bol_line) auto
  have 2: "split_bol pat True (join [CHR 0x0A] (l # ls)) = [join [CHR 0x0A] (l # ls)]"
    using Cons.prems by (intro Cons.IH) auto
  show ?case
    using split_bol_nl [OF assms 1 2] by simp
qed

lemma split_bol_no_line_starts:
  assumes "CHR 0x0A \<notin> set pat" "list_all (\<lambda>l. \<not> prefix pat l) (split_char (CHR 0x0A) s)"
  shows "split_bol pat b s = [s]"
proof -
  obtain l0 ls where sp: "split_char (CHR 0x0A) s = l0 # ls"
    by (cases "split_char (CHR 0x0A) s") auto
  have "split_bol pat b (join [CHR 0x0A] (l0 # ls)) = [join [CHR 0x0A] (l0 # ls)]"
    using assms(2) split_char_lines_no_sep [of "CHR 0x0A" s] sp
    by (intro split_bol_join [OF assms(1)]) (auto simp: list_all_iff)
  then show ?thesis
    using join_split_char [of "CHR 0x0A" s] sp by simp
qed

lemma split_bol_spaces:
  assumes "pat \<noteq> []" "\<not> is_space (hd pat)" "list_all is_space w"
  shows "split_bol pat b w = [w]"
  using assms(3)
proof (induction w arbitrary: b)
  case Nil
  then show ?case by simp
next
  case (Cons c cs)
  then have "\<not> prefix pat (c # cs)"
    using assms(1,2) by (cases pat) auto
  with Cons show ?case by (simp add: split_bol_single)
qed

lemma takeWhile_stop:
  "list_all P xs \<Longrightarrow> \<not> P y \<Longrightarrow> takeWhile P (xs @ y # ys) = xs"
  by (induction xs) auto

lemma dropWhile_stop:
  "list_all P xs \<Longrightarrow> \<not> P y \<Longrightarrow> dropWhile P (xs @ y # ys) = y # ys"
  by (induction xs) auto

lemma char_classes [simp]:
  "is_space (CHR '' '')" "\<not> is_space (CHR ''`'')" "\<not> is_space (CHR ''('')"
  "\<not> is_space (CHR '':'')" "\<not> is_space (CHR ''-'')" "\<not> is_space (CHR ''#'')"
  "\<not> is_word (CHR ''`'')" "\<not> is_word (CHR 0x0A)" "\<not> is_space (CHR '')'')"
  "\<not> is_space (CHR ''='')"
  by (simp_all add: is_space_def is_word_def)

lemma match_desc_text:
  assumes "d \<noteq> []" "\<not> is_space (hd d)" "\<not> is_space (last d)" "CHR 0x0A \<notin> set d"
  shows "match_desc (CHR '' '' # d) = Some d"
proof -
  have l: "last (CHR '' '' # d) = last d" using assms(1) by simp
  have "last d \<noteq> CHR 0x0A" using assms(3) by auto
  moreover have "dropWhile is_space (CHR '' '' # d) = d"
    using assms(1,2) by (cases d) auto
  moreover have "\<not> Ball (set d) is_space"
    using assms(1,2) by (cases d) auto
  ultimately show ?thesis
    using assms(1,4) l by (simp add: match_desc_def Let_def)
qed

lemma PARAM_RE_match_line:
  assumes "name \<noteq> []" "list_all is_word name" "mods \<noteq> []" "CHR '')'' \<notin> set mods"
    "d \<noteq> []" "\<not> is_space (hd d)" "\<not> is_space (last d)" "CHR 0x0A \<notin> set d"
  shows "PARAM_RE_match (''- `'' @ name @ ''` ('' @ mods @ ''): '' @ d) = Some (name, mods, d)"
proof -
  have tw: "takeWhile is_word (name @ CHR ''`'' # r) = name"
      "dropWhile is_word (name @ CHR ''`'' # r) = CHR ''`'' # r" for r
    using assms(2) by (simp_all add: takeWhile_stop dropWhile_stop)
  have la: "list_all (\<lambda>x. x \<noteq> CHR '')'') mods"
    using assms(4) by (auto simp: list_all_iff)
  have tm: "takeWhile (\<lambda>x. x \<noteq> CHR '')'') (mods @ CHR '')'' # r) = mods"
      "dropWhile (\<lambda>x. x \<noteq> CHR '')'') (mods @ CHR '')'' # r) = CHR '')'' # r" for r
    by (rule takeWhile_stop [OF la], simp) (rule dropWhile_stop [OF la], simp)
  show ?thesis
    using assms(1,3) match_desc_text [OF assms(5-8)]
    by (simp add: PARAM_RE_match_def tw tm)
qed

lemma strip_id: "x \<noteq> [] \<Longrightarrow> \<not> is_space (hd x) \<Longrightarrow> \<not> is_space (last x) \<Longrightarrow> strip x = x"
  using strip_core [of x "[]"] by simp

lemma stripped_Nil [simp]: "stripped []"
  by (simp add: stripped_def)

lemma stripped_hd_last:
  "stripped s \<Longrightarrow> s \<noteq> [] \<Longrightarrow> \<not> is_space (hd s) \<and> \<not> is_space (last s)"
  unfolding stripped_def by (rule stripped_ends)

lemma strip_flag_tokens:
  "strip '' required'' = ''required''" "strip '' optional'' = ''optional''"
  by code_simp+

lemma strip_default_token:
  assumes "stripped D"
  shows "strip ('' default='' @ D) = ''default='' @ D"
proof -
  have "lstrip ('' default='' @ D) = ''default='' @ D"
    by (simp add: lstrip_def is_space_def)
  moreover have "rstrip (''default='' @ D) = ''default='' @ D"
  proof (cases "D = []")
    case True
    then show ?thesis by (simp add: rstrip_def)
  next
    case False
    with assms have "\<not> is_space (last D)" using stripped_hd_last by blast
    with False show ?thesis by (intro rstrip_id) auto
  qed
  ultimately show ?thesis by (simp add: strip_def)
qed

lemma apply_modifier_type:
  assumes "stripped ty" "ty \<noteq> ''optional''" "ty \<noteq> ''required''" "\<not> prefix ''default='' ty"
  shows "apply_modifier (t0, r0, d0) ty = (ty, r0, d0)"
  using assms by (simp add: apply_modifier_def Let_def stripped_def)

lemma apply_modifier_flags:
  "apply_modifier (t0, r0, d0) '' required'' = (t0, True, d0)"
  "apply_modifier (t0, r0, d0) '' optional'' = (t0, False, d0)"
  by (simp_all add: apply_modifier_def Let_def strip_flag_tokens)

lemma apply_modifier_default:
  assumes "stripped D"
  shows "apply_modifier (t0, r0, d0) ('' default='' @ D) = (t0, False, Some D)"
proof -
  have e: "strip ('' default='' @ D) = ''default='' @ D"
    by (rule strip_default_token [OF assms])
  have "strip D = D" using assms by (simp add: stripped_def)
  then show ?thesis
    unfolding apply_modifier_def Let_def e
    by (simp add: removeprefix_def)
qed

lemma modifier_text_no_comma: "modifier_text s \<Longrightarrow> CHR '','' \<notin> set s \<and> CHR '')'' \<notin> set s"
  by (auto simp: modifier_text_def list_all_iff)

lemma parse_modifiers_no_default:
  assumes "modifier_text ty" "ty \<noteq> ''optional''" "ty \<noteq> ''required''" "\<not> prefix ''default='' ty"
  shows "parse_modifiers (ty @ '', '' @ (if r then ''required'' else ''optional'')) = (ty, r, None)"
proof -
  have c: "CHR '','' \<notin> set ty" using assms(1) modifier_text_no_comma by blast
  have s: "stripped ty" using assms(1) by (simp add: modifier_text_def)
  have "split_char CHR '','' (ty @ CHR '','' # '' '' @ (if r then ''required'' else ''optional''))
      = ty # [if r then '' required'' else '' optional'']"
    using c by (simp add: split_char_append)
  then show ?thesis
    using apply_modifier_type [OF s assms(2-4)]
    by (simp add: parse_modifiers_def apply_modifier_flags)
qed

lemma parse_modifiers_default:
  assumes "modifier_text ty" "ty \<noteq> ''optional''" "ty \<noteq> ''required''" "\<not> prefix ''default='' ty"
    "modifier_text D"
  shows "parse_modifiers (ty @ '', '' @ ''optional'' @ '', '' @ ''default='' @ D) = (ty, False, Some D)"
proof -
  have c: "CHR '','' \<notin> set ty" "CHR '','' \<notin> set D"
    using assms(1,5) modifier_text_no_comma by blast+
  have s: "stripped ty" "stripped D" using assms(1,5) by (simp_all add: modifier_text_def)
  have "split_char CHR '','' ('' default='' @ D) = ['' default='' @ D]"
    using c by (intro split_char_no_sep) auto
  then have "split_char CHR '','' ('' optional'' @ CHR '','' # '' default='' @ D)
      = ['' optional'', '' default='' @ D]"
    by (subst split_char_append) auto
  then have "split_char CHR '','' (ty @ CHR '','' # '' optional'' @ CHR '','' # '' default='' @ D)
      = [ty, '' optional'', '' default='' @ D]"
    using c by (subst split_char_append) auto
  then show ?thesis
    using apply_modifier_type [OF s(1) assms(2-4)] apply_modifier_default [OF s(2)]
    by (simp add: parse_modifiers_def apply_modifier_flags)
qed

lemma serialize_param_shape:
  "serialize_param p =
     ''- `'' @ param_name p @ ''` (''
     @ (param_type p @ '', '' @ (if param_required p then ''required'' else ''optional'')
        @ (case param_default p of None \<Rightarrow> [] | Some d \<Rightarrow> '', '' @ ''default='' @ d))
     @ '')''
     @ (if param_description p \<noteq> [] then '': '' @ param_description p else [])"
  by (simp add: serialize_param_def Let_def split: option.splits)

lemma param_roundtrip:
  assumes "clean_param p"
  shows "param_of_line (serialize_param p) = Some p"
proof -
  let ?d = "param_description p"
  define mods where "mods =
     param_type p @ '', '' @ (if param_required p then ''required'' else ''optional'')
        @ (case param_default p of None \<Rightarrow> [] | Some d \<Rightarrow> '', '' @ ''default='' @ d)"
  from assms have d: "?d \<noteq> []" "stripped ?d" "no_linebreak ?d"
    and n: "param_name p \<noteq> []" "list_all is_word (param_name p)"
    and ty: "modifier_text (param_type p)" "param_type p \<noteq> ''optional''"
      "param_type p \<noteq> ''required''" "\<not> prefix ''default='' (param_type p)"
    by (simp_all add: clean_param_def)
  have dh: "\<not> is_space (hd ?d)" "\<not> is_space (last ?d)"
    using stripped_hd_last [OF d(2,1)] by simp_all
  have dn: "CHR 0x0A \<notin> set ?d"
    using d(3) by (auto simp: no_linebreak_def list_all_iff)
  have line: "serialize_param p = ''- `'' @ param_name p @ ''` ('' @ mods @ ''): '' @ ?d"
    using d(1) by (simp add: serialize_param_shape mods_def)
  have paren: "CHR '')'' \<notin> set mods"
    using ty(1) assms modifier_text_no_comma
    by (auto simp: clean_param_def mods_def split: option.splits)
  have mne: "mods \<noteq> []" by (simp add: mods_def)
  have m: "PARAM_RE_match (serialize_param p) = Some (param_name p, mods, ?d)"
    unfolding line
    using n paren d(1) dh dn mne by (intro PARAM_RE_match_line) auto
  have st: "strip (serialize_param p) = serialize_param p"
    unfolding line using d(1) dh by (intro strip_id) auto
  have pm: "parse_modifiers mods = (param_type p, param_required p, param_default p)"
  proof (cases "param_default p")
    case None
    then show ?thesis using parse_modifiers_no_default [OF ty] by (simp add: mods_def)
  next
    case (Some D)
    with assms have "modifier_text D" "\<not> param_required p"
      by (simp_all add: clean_param_def)
    with Some show ?thesis using parse_modifiers_default [OF ty, of D] by (simp add: mods_def)
  qed
  have "strip ?d = ?d" using d(2) by (simp add: stripped_def)
  then show ?thesis
    by (simp add: param_of_line_def st m pm mk_Param_def)
qed

lemma is_word_not_linebreak: "is_word c \<Longrightarrow> \<not> is_linebreak c"
  by (auto simp: is_word_def is_linebreak_def Let_def)

lemma no_linebreak_append [simp]:
  "no_linebreak (a @ b) \<longleftrightarrow> no_linebreak a \<and> no_linebreak b"
  by (simp add: no_linebreak_def)

lemma no_linebreak_Cons [simp]:
  "no_linebreak (c # s) \<longleftrightarrow> \<not> is_linebreak c \<and> no_linebreak s"
  by (simp add: no_linebreak_def)

lemma no_linebreak_Nil [simp]: "no_linebreak []"
  by (simp add: no_linebreak_def)

lemma modifier_text_no_linebreak: "modifier_text s \<Longrightarrow> no_linebreak s"
  by (auto simp: modifier_text_def no_linebreak_def list_all_iff)

lemma serialize_param_no_linebreak:
  assumes "clean_param p"
  shows "no_linebreak (serialize_param p)"
proof -
  have lit: "\<not> is_linebreak (CHR ''-'')" "\<not> is_linebreak (CHR '' '')" "\<not> is_linebreak (CHR ''`'')"
    "\<not> is_linebreak (CHR ''('')" "\<not> is_linebreak (CHR '')'')" "\<not> is_linebreak (CHR '':'')"
    "\<not> is_linebreak (CHR '','')" "no_linebreak ''required''" "no_linebreak ''optional''"
    "no_linebreak ''default=''"
    by (simp_all add: is_linebreak_def)
  have "no_linebreak (param_name p)"
    using assms by (auto simp: clean_param_def no_linebreak_def list_all_iff is_word_not_linebreak)
  moreover have "no_linebreak (param_type p)" "no_linebreak (param_description p)"
    using assms by (simp_all add: clean_param_def modifier_text_no_linebreak)
  moreover have "case param_default p of None \<Rightarrow> True | Some d \<Rightarrow> no_linebreak d"
    using assms by (auto simp: clean_param_def modifier_text_no_linebreak split: option.splits)
  ultimately show ?thesis
    unfolding serialize_param_shape using lit
    by (auto split: option.splits)
qed

lemma serialize_param_ends:
  assumes "clean_param p"
  shows "serialize_param p \<noteq> []" "hd (serialize_param p) = CHR ''-''"
    "\<not> is_space (last (serialize_param p))"
proof -
  from assms have d: "param_description p \<noteq> []" "stripped (param_description p)"
    by (simp_all add: clean_param_def)
  show "serialize_param p \<noteq> []" "hd (serialize_param p) = CHR ''-''"
    by (simp_all add: serialize_param_shape)
  show "\<not> is_space (last (serialize_param p))"
    using d stripped_hd_last [OF d(2,1)] by (simp add: serialize_param_shape)
qed

lemma join_ends:
  "ls \<noteq> [] \<Longrightarrow> \<forall>l \<in> set ls. l \<noteq> [] \<Longrightarrow>
   join sep ls \<noteq> [] \<and> hd (join sep ls) = hd (hd ls) \<and> last (join sep ls) = last (last ls)"
  by (induction sep ls rule: join.induct) auto

lemma splitlines_join:
  "ls \<noteq> [] \<Longrightarrow> \<forall>l \<in> set ls. no_linebreak l \<and> l \<noteq> [] \<Longrightarrow>
   splitlines (join [CHR 0x0A] ls) = ls"
proof (induction ls)
  case Nil
  then show ?case by simp
next
  case (Cons l ls)
  show ?case
  proof (cases "ls = []")
    case True
    with Cons.prems show ?thesis by (simp add: splitlines_line no_linebreak_def)
  next
    case False
    then have j: "join [CHR 0x0A] ls \<noteq> []"
      using Cons.prems join_ends [of ls "[CHR 0x0A]"] by auto
    have "splitlines (l @ CHR 0x0A # join [CHR 0x0A] ls) = l # splitlines (join [CHR 0x0A] ls)"
      using Cons.prems j by (intro splitlines_line_NL) (auto simp: no_linebreak_def)
    with False Cons show ?thesis by (simp add: join_Cons)
  qed
qed

lemma map_filter_roundtrip:
  "\<forall>x \<in> set xs. f (g x) = Some x \<Longrightarrow> List.map_filter f (map g xs) = xs"
  by (induction xs) (auto simp: List.map_filter_simps)

lemma params_block_roundtrip:
  assumes "ps \<noteq> []" "list_all clean_param ps" "list_all is_space w"
  shows "parse_params_block (join [CHR 0x0A] (map serialize_param ps) @ w) = ps"
proof -
  let ?ls = "map serialize_param ps"
  have ne: "?ls \<noteq> []" using assms(1) by simp
  have each: "\<forall>l \<in> set ?ls. no_linebreak l \<and> l \<noteq> []"
    using assms(2) serialize_param_no_linebreak serialize_param_ends(1)
    by (auto simp: list_all_iff)
  have e: "join [CHR 0x0A] ?ls \<noteq> []" "hd (join [CHR 0x0A] ?ls) = hd (hd ?ls)"
      "last (join [CHR 0x0A] ?ls) = last (last ?ls)"
    using join_ends [OF ne, of "[CHR 0x0A]"] each by auto
  have "hd ?ls \<in> set ?ls" "last ?ls \<in> set ?ls"
    using ne hd_in_set [of ?ls] last_in_set [of ?ls] by blast+
  then have "\<not> is_space (hd (hd ?ls))" "\<not> is_space (last (last ?ls))"
    using assms(2) serialize_param_ends(2,3) by (auto simp: list_all_iff)
  with e have "strip (join [CHR 0x0A] ?ls @ w) = join [CHR 0x0A] ?ls"
    using assms(3) by (intro strip_core) auto
  moreover have "splitlines (join [CHR 0x0A] ?ls) = ?ls"
    by (rule splitlines_join [OF ne each])
  moreover have "List.map_filter param_of_line ?ls = ps"
    using assms(2) by (intro map_filter_roundtrip) (auto simp: list_all_iff param_roundtrip)
  ultimately show ?thesis by (simp add: parse_params_block_def)
qed

lemma search_tool_bol_match: "search_tool b s = bol_match tool_marker_at b s"
  by (induction s arbitrary: b) auto

lemma split_bol_bol_match:
  "pat \<noteq> [] \<Longrightarrow> split_bol pat b s = [s] \<longleftrightarrow> \<not> bol_match (prefix pat) b s"
  by (induction s arbitrary: b) (auto simp: split_bol_single)

text \<open>A field at a line start, followed by a newline.\<close>

lemma bol_match_prefix_local:
  "CHR 0x0A \<notin> set pat \<Longrightarrow> prefix pat (x @ CHR 0x0A # y) = prefix pat x"
  using no_straddle_NL [of pat x y] by (auto simp: prefix_def)

lemma tool_marker_at_local:
  "tool_marker_at (x @ CHR 0x0A # y) = tool_marker_at (x @ [CHR 0x0A])"
proof -
  have p: "prefix ''tool:'' (x @ CHR 0x0A # z) = prefix ''tool:'' x" for z
    by (rule bol_match_prefix_local) simp
  show ?thesis
  proof (cases "prefix ''tool:'' x")
    case False
    then show ?thesis using p by (simp add: tool_marker_at_def)
  next
    case True
    then obtain r where "x = ''tool:'' @ r" by (auto simp: prefix_def)
    then show ?thesis by (cases r) (simp_all add: tool_marker_at_def)
  qed
qed

lemma bol_match_field:
  assumes loc: "\<And>x y. P (x @ CHR 0x0A # y) = P (x @ [CHR 0x0A])"
  shows "bol_match P b (f @ CHR 0x0A # rest) =
     (bol_match P b (f @ [CHR 0x0A]) \<or> bol_match P True rest)"
proof (induction f arbitrary: b)
  case Nil
  show ?case using loc [of "[]" rest] by (cases rest) auto
next
  case (Cons c cs)
  show ?case using Cons.IH [of "c = CHR 0x0A"] loc [of "c # cs" rest] by auto
qed

lemma bol_match_append_mono:
  assumes "\<And>x y. P x \<Longrightarrow> P (x @ y)"
  shows "bol_match P b x \<Longrightarrow> bol_match P b (x @ y)"
proof (induction x arbitrary: b)
  case Nil
  then show ?case by simp
next
  case (Cons c cs)
  then show ?case using assms [of "c # cs" y] by auto
qed

lemma bol_match_mono:
  assumes "\<And>x. P x \<Longrightarrow> Q x"
  shows "bol_match P b s \<Longrightarrow> bol_match Q b s"
  using assms by (induction s arbitrary: b) auto

lemma split_char_append_sep:
  "split_char sep (a @ sep # b) = split_char sep a @ split_char sep b"
proof (induction a)
  case Nil
  then show ?case by simp
next
  case (Cons c a)
  obtain l ls where "split_char sep a = l # ls"
    by (cases "split_char sep a") auto
  with Cons show ?case by auto
qed

lemma no_line_starts_snoc_NL:
  "pat \<noteq> [] \<Longrightarrow> no_line_starts pat f \<Longrightarrow> no_line_starts pat (f @ [CHR 0x0A])"
  by (simp add: no_line_starts_def split_char_append_sep)

lemma bm_field_end:
  assumes "CHR 0x0A \<notin> set pat" "pat \<noteq> []" "no_line_starts pat f"
  shows "bol_match (prefix pat) b f = False"
  using split_bol_no_line_starts [OF assms(1), of f b] assms(2,3)
  by (simp add: split_bol_bol_match no_line_starts_def)

lemma bm_field:
  assumes "CHR 0x0A \<notin> set pat" "pat \<noteq> []" "no_line_starts pat f"
  shows "bol_match (prefix pat) b (f @ CHR 0x0A # rest) = bol_match (prefix pat) True rest"
proof -
  have loc: "\<And>x y. prefix pat (x @ CHR 0x0A # y) = prefix pat (x @ [CHR 0x0A])"
    using assms(1) by (auto simp: bol_match_prefix_local)
  have "bol_match (prefix pat) b (f @ [CHR 0x0A]) = False"
    using assms by (intro bm_field_end no_line_starts_snoc_NL)
  then show ?thesis
    using bol_match_field [where P = "prefix pat", OF loc, of b f rest] by simp
qed

lemma bm_name_end: "CHR 0x0A \<notin> set n \<Longrightarrow> bol_match P False n = False"
  by (induction n) auto

lemma bm_name:
  "CHR 0x0A \<notin> set n \<Longrightarrow> bol_match P False (n @ CHR 0x0A # rest) = bol_match P True rest"
  by (induction n) auto

lemma bm_spaces:
  assumes "pat \<noteq> []" "\<not> is_space (hd pat)" "list_all is_space w"
  shows "bol_match (prefix pat) b w = False"
  using split_bol_spaces [OF assms, of b] assms(1) by (simp add: split_bol_bol_match)

lemma no_line_starts_line:
  "CHR 0x0A \<notin> set l \<Longrightarrow> no_line_starts pat l \<longleftrightarrow> \<not> prefix pat l"
  by (simp add: no_line_starts_def split_char_no_sep)

lemma no_line_starts_join:
  "ls \<noteq> [] \<Longrightarrow> \<forall>l \<in> set ls. CHR 0x0A \<notin> set l \<and> \<not> prefix pat l \<Longrightarrow>
   no_line_starts pat (join [CHR 0x0A] ls)"
proof (induction ls)
  case Nil
  then show ?case by simp
next
  case (Cons l ls)
  show ?case
  proof (cases "ls = []")
    case True
    with Cons.prems show ?thesis by (simp add: no_line_starts_line)
  next
    case False
    with Cons have "no_line_starts pat (join [CHR 0x0A] ls)" by simp
    moreover have "split_char (CHR 0x0A) (l @ CHR 0x0A # join [CHR 0x0A] ls)
        = l # split_char (CHR 0x0A) (join [CHR 0x0A] ls)"
      using Cons.prems by (intro split_char_append) auto
    ultimately show ?thesis
      using False Cons.prems by (simp add: join_Cons no_line_starts_def)
  qed
qed

lemma line_pats_props:
  assumes "pat \<in> set line_pats"
  shows "CHR 0x0A \<notin> set pat" "pat \<noteq> []" "\<not> is_space (hd pat)"
  using assms by (auto simp: line_pats_def is_space_def)

lemma plain_text_pats:
  "plain_text s \<Longrightarrow> pat \<in> set line_pats \<Longrightarrow> no_line_starts pat s"
  by (auto simp: plain_text_def line_pats_def)

lemma ws_tail_cases:
  assumes "ws_tail w"
  obtains "w = []" | w' where "w = CHR 0x0A # w'" "list_all is_space w'"
  using assms by (cases w) (auto simp: ws_tail_def)

lemma ws_tail_simps [simp]:
  "ws_tail []" "ws_tail [CHR 0x0A, CHR 0x0A]" "ws_tail [CHR 0x0A, CHR 0x0A, CHR 0x0A]"
  by (simp_all add: ws_tail_def)

lemma no_linebreak_NL: "no_linebreak s \<Longrightarrow> CHR 0x0A \<notin> set s"
  by (auto simp: no_linebreak_def list_all_iff)

lemma param_lines_no_line_starts:
  assumes "ps \<noteq> []" "list_all clean_param ps" "pat \<in> set line_pats"
  shows "no_line_starts pat (join [CHR 0x0A] (map serialize_param ps))"
proof (rule no_line_starts_join)
  show "map serialize_param ps \<noteq> []" using assms(1) by simp
  show "\<forall>l \<in> set (map serialize_param ps). CHR 0x0A \<notin> set l \<and> \<not> prefix pat l"
  proof
    fix l assume "l \<in> set (map serialize_param ps)"
    then obtain p where p: "p \<in> set ps" "l = serialize_param p" by auto
    then have c: "clean_param p" using assms(2) by (simp add: list_all_iff)
    have "CHR 0x0A \<notin> set l"
      using serialize_param_no_linebreak [OF c] p(2) by (simp add: no_linebreak_NL)
    moreover have "\<not> prefix pat l"
      using assms(3) p(2) by (auto simp: line_pats_def serialize_param_shape)
    ultimately show "CHR 0x0A \<notin> set l \<and> \<not> prefix pat l" by simp
  qed
qed

lemma bm_params_piece:
  assumes "tool_params t \<noteq> []" "list_all clean_param (tool_params t)" "pat \<in> set line_pats"
    "ws_tail y"
  shows "bol_match (prefix pat) b (params_piece t @ y) = False"
proof -
  note pp = line_pats_props [OF assms(3)]
  note f = param_lines_no_line_starts [OF assms(1-3)]
  from assms(4) show ?thesis
  proof (cases rule: ws_tail_cases)
    case 1
    then show ?thesis
      using assms(3) bm_field_end [OF pp(1,2) f]
      by (auto simp: params_piece_def line_pats_def)
  next
    case (2 w')
    then show ?thesis
      using assms(3) bm_field [OF pp(1,2) f] bm_spaces [OF pp(2,3) 2(2)]
      by (auto simp: params_piece_def line_pats_def)
  qed
qed

lemma bm_fenced_piece:
  assumes "no_line_starts pat body" "pat \<in> set line_pats" "ws_tail y"
    "CHR 0x0A \<notin> set title" "CHR 0x0A \<notin> set lang" "b \<longrightarrow> \<not> prefix pat title"
  shows "bol_match (prefix pat) b
     (title @ NL @ ''```'' @ lang @ NL @ body @ NL @ ''```'' @ y) = False"
proof -
  note pp = line_pats_props [OF assms(2)]
  have t: "no_line_starts pat title" if b
    using that assms(4,6) by (simp add: no_line_starts_line)
  have l: "no_line_starts pat (''```'' @ lang)"
    using assms(2,5) by (subst no_line_starts_line) (auto simp: line_pats_def)
  have e: "bol_match (prefix pat) True (''```'' @ y) = False"
    using assms(3)
  proof (cases rule: ws_tail_cases)
    case 1
    then show ?thesis using assms(2) by (auto simp: line_pats_def)
  next
    case (2 w')
    then show ?thesis
      using assms(2) bm_spaces [OF pp(2,3) 2(2)] by (auto simp: line_pats_def)
  qed
  have "bol_match (prefix pat) b (title @ CHR 0x0A # rest) = bol_match (prefix pat) True rest" for rest
  proof (cases b)
    case True
    then show ?thesis using bm_field [OF pp(1,2) t] by simp
  next
    case False
    then show ?thesis using bm_name [OF assms(4)] by simp
  qed
  moreover have "bol_match (prefix pat) True ((''```'' @ lang) @ CHR 0x0A # rest)
      = bol_match (prefix pat) True rest" for rest
    by (rule bm_field [OF pp(1,2) l])
  moreover have "bol_match (prefix pat) True (body @ CHR 0x0A # rest)
      = bol_match (prefix pat) True rest" for rest
    by (rule bm_field [OF pp(1,2) assms(1)])
  ultimately show ?thesis using e by simp
qed

lemma bm_output_piece:
  assumes "plain_text (tool_returns t)" "pat \<in> set line_pats" "ws_tail y"
  shows "bol_match (prefix pat) b (output_piece t @ y) = False"
proof -
  have "bol_match (prefix pat) b
     (''Output'' @ NL @ ''```'' @ ''typescript'' @ NL @ tool_returns t @ NL @ ''```'' @ y) = False"
    using assms plain_text_pats
    by (intro bm_fenced_piece) (auto simp: line_pats_def)
  then show ?thesis by (simp add: output_piece_def)
qed

lemma bm_sample_piece:
  assumes "plain_text (tool_sample_code t)" "pat \<in> set line_pats" "ws_tail y"
  shows "bol_match (prefix pat) b (sample_piece t @ y) = False"
proof -
  have "bol_match (prefix pat) b
     (''Sample Code'' @ NL @ ''```'' @ ''javascript'' @ NL @ tool_sample_code t @ NL @ ''```'' @ y) = False"
    using assms plain_text_pats
    by (intro bm_fenced_piece) (auto simp: line_pats_def)
  then show ?thesis by (simp add: sample_piece_def)
qed

lemma bm_hdr_piece:
  assumes "no_linebreak (tool_name t)" "plain_text (tool_description t)"
    "pat \<in> set line_pats" "ws_tail y" "b \<longrightarrow> \<not> prefix pat (tool_name t)"
  shows "bol_match (prefix pat) b (hdr_piece t @ y) = False"
proof -
  note pp = line_pats_props [OF assms(3)]
  have nn: "CHR 0x0A \<notin> set (tool_name t)" using assms(1) by (rule no_linebreak_NL)
  have d: "no_line_starts pat (tool_description t)"
    using assms(2,3) by (rule plain_text_pats)
  have n: "no_line_starts pat (tool_name t)" if b
    using that nn assms(5) by (simp add: no_line_starts_line)
  have name_nl: "bol_match (prefix pat) b (tool_name t @ CHR 0x0A # rest)
      = bol_match (prefix pat) True rest" for rest
  proof (cases b)
    case True
    then show ?thesis using bm_field [OF pp(1,2) n] by simp
  next
    case False
    then show ?thesis using bm_name [OF nn] by simp
  qed
  have name_end: "bol_match (prefix pat) b (tool_name t) = False"
  proof (cases b)
    case True
    then show ?thesis using bm_field_end [OF pp(1,2) n] by simp
  next
    case False
    then show ?thesis using bm_name_end [OF nn] by simp
  qed
  from assms(4) show ?thesis
  proof (cases rule: ws_tail_cases)
    case 1
    then show ?thesis
      using name_nl name_end bm_field_end [OF pp(1,2) d]
      by (simp add: hdr_piece_def)
  next
    case (2 w')
    then show ?thesis
      using name_nl bm_field [OF pp(1,2) d] bm_spaces [OF pp(2,3) 2(2)]
      by (simp add: hdr_piece_def)
  qed
qed

lemma section_keys:
  "lower (strip ''Params'') = ''params''"
  "lower (strip ''Output'') = ''output''"
  "lower (strip ''Sample Code'') = ''sample code''"
  by code_simp+

lemma sub_section_entry_params:
  "sub_section_entry (params_piece t @ y)
     = (''params'', join NL (map serialize_param (tool_params t)) @ y)"
  by (simp add: sub_section_entry_def params_piece_def before_first_def after_first_def
        section_keys)

lemma sub_section_entry_output:
  "sub_section_entry (output_piece t @ y)
     = (''output'', ''```typescript'' @ NL @ tool_returns t @ NL @ ''```'' @ y)"
  by (simp add: sub_section_entry_def output_piece_def before_first_def after_first_def
        section_keys)

lemma sub_section_entry_sample:
  "sub_section_entry (sample_piece t @ y)
     = (''sample code'', ''```javascript'' @ NL @ tool_sample_code t @ NL @ ''```'' @ y)"
  by (simp add: sub_section_entry_def sample_piece_def before_first_def after_first_def
        section_keys)

lemma before_fence_None_Cons:
  "before_fence (c # cs) = None \<longleftrightarrow> \<not> prefix ''```'' (c # cs) \<and> before_fence cs = None"
  by auto

lemma before_fence_closing:
  "before_fence s = None \<Longrightarrow> before_fence (s @ CHR 0x0A # ''```'' @ r) = Some (s @ NL)"
proof (induction s)
  case Nil
  then show ?case by simp
next
  case (Cons c cs)
  from Cons.prems have a: "\<not> prefix ''```'' (c # cs)" "before_fence cs = None"
    unfolding before_fence_None_Cons by blast+
  have "\<not> prefix ''```'' ((c # cs) @ CHR 0x0A # ''```'' @ r)"
    by (rule no_straddle_NL [OF _ a(1)]) simp
  then show ?case using Cons.IH [OF a(2)] by simp
qed

lemma extract_sample:
  assumes "stripped sc" "before_fence sc = None" "list_all is_space y"
  shows "extract_code_block (''```javascript'' @ NL @ sc @ NL @ ''```'' @ y) = sc"
proof -
  have w: "dropWhile is_word (''javascript'' @ CHR 0x0A # rest) = CHR 0x0A # rest" for rest
    by (simp add: is_word_def)
  have "CODE_BLOCK_RE_search (''```javascript'' @ NL @ sc @ NL @ ''```'' @ y) = Some (sc @ NL)"
    using before_fence_closing [OF assms(2), of y] w by simp
  moreover have "strip (sc @ NL) = sc"
  proof (cases "sc = []")
    case True
    then show ?thesis by (simp add: strip_spaces)
  next
    case False
    then show ?thesis using assms(1) by (intro strip_stripped_append) (auto simp: stripped_def)
  qed
  ultimately show ?thesis by (simp add: extract_code_block_def)
qed

lemma hdr_piece_lines:
  assumes "tool_name t \<noteq> []" "stripped (tool_name t)" "no_linebreak (tool_name t)"
    "stripped (tool_description t)" "only_newlines (tool_description t)" "list_all is_space y"
  shows "splitlines (strip (hdr_piece t @ y))
     = tool_name t # (if tool_description t = [] then []
                      else split_char (CHR 0x0A) (tool_description t))"
proof -
  note n = stripped_hd_last [OF assms(2,1)]
  have nl: "list_all (\<lambda>c. \<not> is_linebreak c) (tool_name t)"
    using assms(3) by (simp add: no_linebreak_def)
  show ?thesis
  proof (cases "tool_description t = []")
    case True
    have "strip (tool_name t @ y) = tool_name t"
      using assms(1,6) n by (intro strip_core) auto
    with True show ?thesis
      using splitlines_line [OF nl assms(1)] by (simp add: hdr_piece_def)
  next
    case False
    note d = stripped_hd_last [OF assms(4) False]
    have "strip ((tool_name t @ CHR 0x0A # tool_description t) @ y)
        = tool_name t @ CHR 0x0A # tool_description t"
      using assms(1,6) n d False by (intro strip_core) auto
    moreover have "splitlines (tool_name t @ CHR 0x0A # tool_description t)
        = tool_name t # splitlines (tool_description t)"
      using nl False by (rule splitlines_line_NL)
    moreover have "splitlines (tool_description t) = split_char (CHR 0x0A) (tool_description t)"
      using assms(5) False d by (intro splitlines_eq_split_char) (auto simp: only_newlines_def)
    ultimately show ?thesis using False by (simp add: hdr_piece_def)
  qed
qed

lemma hdr_piece_roundtrip:
  assumes "tool_name t \<noteq> []" "stripped (tool_name t)" "no_linebreak (tool_name t)"
    "stripped (tool_description t)" "only_newlines (tool_description t)" "list_all is_space y"
  shows "(case splitlines (strip (hdr_piece t @ y)) of [] \<Rightarrow> [] | l # _ \<Rightarrow> strip l) = tool_name t"
    and "strip (join NL (drop 1 (splitlines (strip (hdr_piece t @ y))))) = tool_description t"
proof -
  note l = hdr_piece_lines [OF assms]
  show "(case splitlines (strip (hdr_piece t @ y)) of [] \<Rightarrow> [] | l # _ \<Rightarrow> strip l) = tool_name t"
    using assms(2) by (simp add: l stripped_def)
  show "strip (join NL (drop 1 (splitlines (strip (hdr_piece t @ y))))) = tool_description t"
    using assms(4) join_split_char [of "CHR 0x0A" "tool_description t"]
    by (simp add: l stripped_def)
qed

lemma with_tails_Cons:
  "with_tails w (x # xs) = (x @ (if xs = [] then w else NL @ NL)) # with_tails w xs"
  by (cases xs) simp_all

lemma with_tails_elems:
  "p \<in> set (with_tails w xs) \<Longrightarrow> \<exists>x \<in> set xs. p = x @ w \<or> p = x @ NL @ NL"
  by (induction w xs rule: with_tails.induct) auto

lemma with_tails_butlast:
  "p \<in> set (butlast (with_tails w xs)) \<Longrightarrow> p \<noteq> [] \<and> last p = CHR 0x0A"
  by (induction w xs rule: with_tails.induct) (auto split: if_splits)

lemma ws_tail_spaces: "ws_tail w \<Longrightarrow> list_all is_space w"
  by (simp add: ws_tail_def)

lemma sub_pieces_free:
  assumes "clean_tool t" "ws_tail y" "x \<in> set (sub_pieces t)" "pat \<in> set line_pats"
  shows "bol_match (prefix pat) b (x @ y) = False"
proof -
  from assms(1) have c: "list_all clean_param (tool_params t)" "plain_text (tool_returns t)"
      "plain_text (tool_sample_code t)"
    by (simp_all add: clean_tool_def)
  from assms(3) consider
      "tool_params t \<noteq> []" "x = params_piece t"
    | "x = output_piece t" | "x = sample_piece t"
    by (auto simp: sub_pieces_def split: if_splits)
  then show ?thesis
  proof cases
    case 1
    then show ?thesis using bm_params_piece [OF 1(1) c(1) assms(4,2)] by simp
  next
    case 2
    then show ?thesis using bm_output_piece [OF c(2) assms(4,2)] by simp
  next
    case 3
    then show ?thesis using bm_sample_piece [OF c(3) assms(4,2)] by simp
  qed
qed

lemma tool_pieces_free:
  assumes "clean_tool t" "ws_tail w" "p \<in> set (with_tails w (sub_pieces t))"
    "pat \<in> set line_pats"
  shows "bol_match (prefix pat) b p = False"
proof -
  from with_tails_elems [OF assms(3)] obtain x where
    x: "x \<in> set (sub_pieces t)" "p = x @ w \<or> p = x @ NL @ NL"
    by blast
  from x(2) show ?thesis
  proof
    assume "p = x @ w"
    then show ?thesis using sub_pieces_free [OF assms(1,2) x(1) assms(4)] by simp
  next
    assume "p = x @ NL @ NL"
    then show ?thesis
      using sub_pieces_free [OF assms(1) _ x(1) assms(4), of "NL @ NL"] by simp
  qed
qed

lemma tool_section_eq:
  "tool_section t w =
     (hdr_piece t @ (if sub_pieces t = [] then w else NL @ NL))
     @ concat (map ((@) ''### '') (with_tails w (sub_pieces t)))"
  by (simp add: tool_section_def with_tails_Cons)

lemma tool_section_split:
  assumes "clean_tool t" "ws_tail w"
  shows "split_bol ''### '' True (tool_section t w) =
     (hdr_piece t @ (if sub_pieces t = [] then w else NL @ NL))
     # with_tails w (sub_pieces t)"
  unfolding tool_section_eq
proof (rule split_bol_pieces)
  have lp: "''### '' \<in> set line_pats" by (simp add: line_pats_def)
  show "CHR 0x0A \<notin> set ''### ''" "''### '' \<noteq> []" by simp_all
  show "\<forall>p \<in> set (with_tails w (sub_pieces t)). split_bol ''### '' False p = [p]"
    using tool_pieces_free [OF assms _ lp] by (simp add: split_bol_bol_match)
  show "\<forall>p \<in> set (butlast (with_tails w (sub_pieces t))). p \<noteq> [] \<and> last p = CHR 0x0A"
    using with_tails_butlast by blast
  have y: "ws_tail (if sub_pieces t = [] then w else NL @ NL)"
    using assms(2) by simp
  have "bol_match (prefix ''### '') True
      (hdr_piece t @ (if sub_pieces t = [] then w else NL @ NL)) = False"
    using assms(1) by (intro bm_hdr_piece [OF _ _ lp y]) (auto simp: clean_tool_def)
  then show "split_bol ''### '' True (hdr_piece t @ (if sub_pieces t = [] then w else NL @ NL))
      = [hdr_piece t @ (if sub_pieces t = [] then w else NL @ NL)]"
    by (simp add: split_bol_bol_match)
  show "with_tails w (sub_pieces t) \<noteq> [] \<longrightarrow>
      (if hdr_piece t @ (if sub_pieces t = [] then w else NL @ NL) = [] then True
       else last (hdr_piece t @ (if sub_pieces t = [] then w else NL @ NL)) = CHR 0x0A)"
    by (cases "sub_pieces t") auto
qed

lemma sub_sections_lookup:
  fixes t w
  defines "ss \<equiv> map_of (rev (map sub_section_entry (with_tails w (sub_pieces t))))"
  shows "ss ''params'' =
      (if tool_params t = [] then None
       else Some (join NL (map serialize_param (tool_params t))
                  @ (if tool_returns t = [] \<and> tool_sample_code t = [] then w else NL @ NL)))"
    and "ss ''sample code'' =
      (if tool_sample_code t = [] then None
       else Some (''```javascript'' @ NL @ tool_sample_code t @ NL @ ''```'' @ w))"
  unfolding ss_def
  by (cases "tool_params t = []"; cases "tool_returns t = []"; cases "tool_sample_code t = []";
      simp add: sub_pieces_def sub_section_entry_params sub_section_entry_output
        sub_section_entry_sample
        sub_section_entry_params [of t "[]", simplified]
        sub_section_entry_output [of t "[]", simplified]
        sub_section_entry_sample [of t "[]", simplified])+

lemma tool_roundtrip:
  assumes "clean_tool t" "ws_tail w"
  shows "tool_name (parse_heading_tool (tool_section t w)) = tool_name t"
    and "tool_description (parse_heading_tool (tool_section t w)) = tool_description t"
    and "tool_params (parse_heading_tool (tool_section t w)) = tool_params t"
    and "tool_sample_code (parse_heading_tool (tool_section t w)) = tool_sample_code t"
proof -
  define y0 where "y0 = (if sub_pieces t = [] then w else NL @ NL)"
  define yp where "yp = (if tool_returns t = [] \<and> tool_sample_code t = [] then w else NL @ NL)"
  have sp: "list_all is_space y0" "list_all is_space yp" "list_all is_space w"
    using assms(2) by (auto simp: y0_def yp_def ws_tail_def)
  from assms(1) have c: "tool_name t \<noteq> []" "stripped (tool_name t)" "no_linebreak (tool_name t)"
      "stripped (tool_description t)" "only_newlines (tool_description t)"
      "list_all clean_param (tool_params t)"
      "stripped (tool_sample_code t)" "before_fence (tool_sample_code t) = None"
    by (simp_all add: clean_tool_def)
  note split = tool_section_split [OF assms, folded y0_def]
  note look = sub_sections_lookup [of w t, folded yp_def]
  note hdr = hdr_piece_roundtrip [OF c(1-5) sp(1)]
  have params: "tool_params t \<noteq> [] \<Longrightarrow>
      parse_params_block (join NL (map serialize_param (tool_params t)) @ yp) = tool_params t"
    using c(6) sp(2) by (intro params_block_roundtrip)
  have sample: "extract_code_block (''```javascript'' @ NL @ tool_sample_code t @ NL @ ''```'' @ w)
      = tool_sample_code t"
    by (rule extract_sample [OF c(7,8) sp(3)])
  show "tool_name (parse_heading_tool (tool_section t w)) = tool_name t"
    using hdr(1) by (simp add: parse_heading_tool_def Let_def split mk_Tool_def)
  show "tool_description (parse_heading_tool (tool_section t w)) = tool_description t"
    using hdr(2) by (simp add: parse_heading_tool_def Let_def split mk_Tool_def)
  show "tool_params (parse_heading_tool (tool_section t w)) = tool_params t"
    using params by (simp add: parse_heading_tool_def Let_def split mk_Tool_def look)
  show "tool_sample_code (parse_heading_tool (tool_section t w)) = tool_sample_code t"
    using sample by (simp add: parse_heading_tool_def Let_def split mk_Tool_def look)
qed

lemma bol_match_append_NL:
  assumes loc: "\<And>x y. P (x @ CHR 0x0A # y) = P (x @ [CHR 0x0A])"
    and "s1 \<noteq> []" "last s1 = CHR 0x0A"
  shows "bol_match P b (s1 @ s2) = (bol_match P b s1 \<or> bol_match P True s2)"
proof -
  obtain f where f: "s1 = f @ [CHR 0x0A]"
    using assms(2,3) by (cases s1 rule: rev_cases) auto
  show ?thesis
    using bol_match_field [where P = P, OF loc, of b f s2] by (simp add: f)
qed

lemma bol_match_pieces:
  assumes loc: "\<And>x y. P (x @ CHR 0x0A # y) = P (x @ [CHR 0x0A])"
  shows "\<not> bol_match P b h \<Longrightarrow> \<forall>p \<in> set ps. \<not> bol_match P True (sep @ p) \<Longrightarrow>
     (ps \<noteq> [] \<longrightarrow> (if h = [] then b else last h = CHR 0x0A)) \<Longrightarrow>
     \<forall>p \<in> set (butlast ps). p \<noteq> [] \<and> last p = CHR 0x0A \<Longrightarrow>
     \<not> bol_match P b (h @ concat (map ((@) sep) ps))"
proof (induction ps arbitrary: h b)
  case Nil
  then show ?case by simp
next
  case (Cons p ps)
  have rest: "\<not> bol_match P True ((sep @ p) @ concat (map ((@) sep) ps))"
  proof (rule Cons.IH)
    show "\<not> bol_match P True (sep @ p)" using Cons.prems(2) by simp
    show "\<forall>p \<in> set ps. \<not> bol_match P True (sep @ p)" using Cons.prems(2) by simp
    show "ps \<noteq> [] \<longrightarrow> (if sep @ p = [] then True else last (sep @ p) = CHR 0x0A)"
      using Cons.prems(4) by (auto split: if_splits)
    show "\<forall>p \<in> set (butlast ps). p \<noteq> [] \<and> last p = CHR 0x0A"
      using Cons.prems(4) by (auto split: if_splits)
  qed
  show ?case
  proof (cases "h = []")
    case True
    with Cons.prems(3) have b by simp
    with True rest show ?thesis by simp
  next
    case False
    with Cons.prems(3) have "last h = CHR 0x0A" by simp
    from bol_match_append_NL [where P = P, OF loc False this, of b]
    show ?thesis using Cons.prems(1) rest by simp
  qed
qed

lemma prefix_loc:
  "CHR 0x0A \<notin> set pat \<Longrightarrow> prefix pat (x @ CHR 0x0A # y) = prefix pat (x @ [CHR 0x0A])"
  by (auto simp: bol_match_prefix_local)

lemma tool_section_free:
  assumes "clean_tool t" "ws_tail w" "pat = ''## '' \<or> pat = ''tool:''"
  shows "\<not> bol_match (prefix pat) False (tool_section t w)"
  unfolding tool_section_eq
proof (rule bol_match_pieces)
  have lp: "pat \<in> set line_pats" using assms(3) by (auto simp: line_pats_def)
  note pp = line_pats_props [OF lp]
  show "\<And>x y. prefix pat (x @ CHR 0x0A # y) = prefix pat (x @ [CHR 0x0A])"
    by (rule prefix_loc [OF pp(1)])
  have y: "ws_tail (if sub_pieces t = [] then w else NL @ NL)"
    using assms(2) by simp
  show "\<not> bol_match (prefix pat) False
      (hdr_piece t @ (if sub_pieces t = [] then w else NL @ NL))"
    using assms(1) bm_hdr_piece [OF _ _ lp y, of t False] by (simp add: clean_tool_def)
  show "\<forall>p \<in> set (with_tails w (sub_pieces t)). \<not> bol_match (prefix pat) True (''### '' @ p)"
  proof
    fix p assume "p \<in> set (with_tails w (sub_pieces t))"
    then have "\<not> bol_match (prefix pat) False p"
      using tool_pieces_free [OF assms(1,2) _ lp] by simp
    then show "\<not> bol_match (prefix pat) True (''### '' @ p)"
      using assms(3) by auto
  qed
  show "with_tails w (sub_pieces t) \<noteq> [] \<longrightarrow>
      (if hdr_piece t @ (if sub_pieces t = [] then w else NL @ NL) = [] then False
       else last (hdr_piece t @ (if sub_pieces t = [] then w else NL @ NL)) = CHR 0x0A)"
    by (cases "sub_pieces t") auto
  show "\<forall>p \<in> set (butlast (with_tails w (sub_pieces t))). p \<noteq> [] \<and> last p = CHR 0x0A"
    using with_tails_butlast by blast
qed

lemma with_tails_concat:
  "xs \<noteq> [] \<Longrightarrow>
   hd (with_tails w xs) @ concat (map ((@) sep) (tl (with_tails w xs)))
     = (hd (with_tails [] xs) @ concat (map ((@) sep) (tl (with_tails [] xs)))) @ w"
proof (induction w xs rule: with_tails.induct)
  case (1 w)
  then show ?case by simp
next
  case (2 w p)
  then show ?case by simp
next
  case (3 w p q ps)
  then show ?case by (cases ps) simp_all
qed

lemma tool_section_tail: "tool_section t w = tool_section t [] @ w"
  unfolding tool_section_def by (rule with_tails_concat) simp

lemma with_tails_Nil_iff [simp]: "with_tails w xs = [] \<longleftrightarrow> xs = []"
  by (induction w xs rule: with_tails.induct) auto

lemma with_tails_last:
  "xs \<noteq> [] \<Longrightarrow> last (with_tails [] xs) = last xs"
  by (induction "[]::string" xs rule: with_tails.induct) auto

lemma tool_section_ends:
  assumes "clean_tool t"
  shows "tool_section t [] \<noteq> []" "\<not> is_space (last (tool_section t []))"
proof -
  from assms have c: "tool_name t \<noteq> []" "stripped (tool_name t)"
      "stripped (tool_description t)" "list_all clean_param (tool_params t)"
    by (simp_all add: clean_tool_def)
  note n = stripped_hd_last [OF c(2,1)]
  have h: "hdr_piece t \<noteq> []" "\<not> is_space (last (hdr_piece t))"
    using c(1) n stripped_hd_last [OF c(3)] by (auto simp: hdr_piece_def)
  show "tool_section t [] \<noteq> []"
    using h(1) by (cases "sub_pieces t") (simp_all add: tool_section_eq)
  have sub: "x \<noteq> [] \<and> \<not> is_space (last x)" if "x \<in> set (sub_pieces t)" for x
  proof -
    from that consider
        "tool_params t \<noteq> []" "x = params_piece t"
      | "x = output_piece t" | "x = sample_piece t"
      by (auto simp: sub_pieces_def split: if_splits)
    then show ?thesis
    proof cases
      case 1
      let ?ls = "map serialize_param (tool_params t)"
      have ne: "?ls \<noteq> []" using 1(1) by simp
      have each: "\<forall>l \<in> set ?ls. l \<noteq> []"
        using c(4) serialize_param_ends(1) by (auto simp: list_all_iff)
      have "last ?ls \<in> set ?ls" using ne last_in_set by blast
      then have "\<not> is_space (last (last ?ls))"
        using c(4) serialize_param_ends(3) by (auto simp: list_all_iff)
      with join_ends [OF ne each, of NL] 1(2) show ?thesis
        by (simp add: params_piece_def)
    next
      case 2
      then show ?thesis by (simp add: output_piece_def is_space_def)
    next
      case 3
      then show ?thesis by (simp add: sample_piece_def is_space_def)
    qed
  qed
  show "\<not> is_space (last (tool_section t []))"
  proof (cases "sub_pieces t = []")
    case True
    with h(2) show ?thesis by (simp add: tool_section_eq)
  next
    case False
    then have wl: "with_tails [] (sub_pieces t) \<noteq> []"
      by (cases "sub_pieces t") (simp_all add: with_tails_Cons)
    have l: "last (with_tails [] (sub_pieces t)) = last (sub_pieces t)"
      by (rule with_tails_last [OF False])
    have "last (sub_pieces t) \<in> set (sub_pieces t)" using False last_in_set by blast
    from sub [OF this] have s: "last (sub_pieces t) \<noteq> []"
        "\<not> is_space (last (last (sub_pieces t)))"
      by simp_all
    have "last (concat (map ((@) ''### '') (with_tails [] (sub_pieces t))))
        = last (''### '' @ last (with_tails [] (sub_pieces t)))"
      using wl by (cases "with_tails [] (sub_pieces t)" rule: rev_cases) simp_all
    with s l False show ?thesis
      by (simp add: tool_section_eq)
  qed
qed

lemma unlines_simps [simp]:
  "unlines [] = []" "unlines (l # ls) = l @ NL @ unlines ls"
  by (simp_all add: unlines_def)

lemma unlines_append: "unlines (xs @ ys) = unlines xs @ unlines ys"
  by (simp add: unlines_def)


lemma unlines_concat: "unlines (concat xss) = concat (map unlines xss)"
  by (induction xss) (simp_all add: unlines_append)

lemma unlines_join: "ls \<noteq> [] \<Longrightarrow> unlines ls = join NL ls @ NL"
  by (induction NL ls rule: join.induct) simp_all

lemma rstrip_join: "rstrip (join NL ls) = rstrip (unlines ls)"
proof (cases "ls = []")
  case True
  then show ?thesis by simp
next
  case False
  have "rstrip (join NL ls @ NL) = rstrip (join NL ls)"
    by (rule rstrip_append_spaces) simp
  with False show ?thesis by (simp add: unlines_join)
qed

lemma serialize_tool_block:
  "unlines (serialize_tool t @ [[]]) = ''## '' @ tool_section t (full_tail t)"
proof -
  have p: "tool_params t \<noteq> [] \<Longrightarrow>
      unlines (map serialize_param (tool_params t))
        = join NL (map serialize_param (tool_params t)) @ NL"
    by (intro unlines_join) simp
  show ?thesis
    by (cases "tool_params t = []"; cases "tool_returns t = []"; cases "tool_sample_code t = []";
        simp add: serialize_tool_def tool_section_eq sub_pieces_def full_tail_def hdr_piece_def
          params_piece_def output_piece_def sample_piece_def p unlines_append)
qed

lemma body_text_simps:
  "body_text [] = []"
  "body_text (t # ts) = (''## '' @ tool_section t (full_tail t)) @ body_text ts"
  by (simp_all add: body_text_def)

lemma to_markdown_shape:
  "to_markdown m = rstrip (header_text m @ body_text (manifest_tools m)) @ NL"
proof -
  have h: "unlines
      (let lines0 = (if manifest_name m \<noteq> [] then [''# '' @ manifest_name m] else [])
                   @ (if manifest_description m \<noteq> [] then [manifest_description m] else [])
       in if lines0 \<noteq> [] then lines0 @ [[]] else lines0) = header_text m"
    by (simp add: header_text_def Let_def)
  have b: "unlines (concat (map (\<lambda>t. serialize_tool t @ [[]]) ts)) = body_text ts" for ts
  proof (induction ts)
    case Nil
    then show ?case by (simp add: body_text_simps)
  next
    case (Cons t ts)
    have "unlines (concat (map (\<lambda>t. serialize_tool t @ [[]]) (t # ts)))
        = unlines (serialize_tool t @ [[]]) @ unlines (concat (map (\<lambda>t. serialize_tool t @ [[]]) ts))"
      by (simp only: list.map concat.simps unlines_append)
    then show ?case
      by (simp only: Cons serialize_tool_block body_text_simps)
  qed
  show ?thesis
    unfolding to_markdown_def Let_def rstrip_join unlines_append b
    using h by (simp add: Let_def)
qed

lemma rstrip_decomp: "\<exists>w. x = rstrip x @ w \<and> list_all is_space w"
proof -
  have "rev x = takeWhile is_space (rev x) @ dropWhile is_space (rev x)" by simp
  then have "x = rev (dropWhile is_space (rev x)) @ rev (takeWhile is_space (rev x))"
    by (metis rev_append rev_rev_ident)
  moreover have "list_all is_space (rev (takeWhile is_space (rev x)))"
    by (simp add: list_all_iff) (meson set_takeWhileD)
  ultimately show ?thesis unfolding rstrip_def by blast
qed

lemma rstrip_last: "rstrip x \<noteq> [] \<Longrightarrow> \<not> is_space (last (rstrip x))"
  unfolding rstrip_def using hd_dropWhile [of is_space "rev x"]
  by (simp add: last_rev)

lemma strip_rstrip_NL:
  assumes "x = [] \<or> \<not> is_space (hd x)"
  shows "strip (rstrip x @ NL) = rstrip x"
proof (cases "rstrip x = []")
  case True
  then show ?thesis by (simp add: strip_spaces)
next
  case False
  obtain w where w: "x = rstrip x @ w" by (meson rstrip_decomp)
  with False have "hd x = hd (rstrip x)" by (metis hd_append2)
  with assms False have "\<not> is_space (hd (rstrip x))" by auto
  then show ?thesis
    using False rstrip_last [OF False] by (intro strip_core) auto
qed

lemma rstrip_body:
  "ts \<noteq> [] \<Longrightarrow> list_all clean_tool ts \<Longrightarrow>
   rstrip (h @ body_text ts) = h @ concat (map ((@) ''## '') (doc_sections ts))"
proof (induction ts arbitrary: h rule: doc_sections.induct)
  case 1
  then show ?case by simp
next
  case (2 t)
  then have c: "clean_tool t" by simp
  have "rstrip ((h @ ''## '' @ tool_section t []) @ full_tail t) = rstrip (h @ ''## '' @ tool_section t [])"
    by (rule rstrip_append_spaces) (simp add: full_tail_def)
  also have "\<dots> = h @ ''## '' @ tool_section t []"
    using tool_section_ends [OF c] by (intro rstrip_id) auto
  finally have "rstrip ((h @ ''## '' @ tool_section t []) @ full_tail t)
      = h @ ''## '' @ tool_section t []" .
  moreover have "h @ body_text [t] = (h @ ''## '' @ tool_section t []) @ full_tail t"
    using tool_section_tail [of t "full_tail t"] by (simp add: body_text_simps)
  moreover have "h @ concat (map ((@) ''## '') (doc_sections [t])) = h @ ''## '' @ tool_section t []"
    by simp
  ultimately show ?case by (simp only:)
next
  case (3 t u ts)
  have "rstrip ((h @ ''## '' @ tool_section t (full_tail t)) @ body_text (u # ts))
      = (h @ ''## '' @ tool_section t (full_tail t)) @ concat (map ((@) ''## '') (doc_sections (u # ts)))"
    using "3.prems" by (intro "3.IH") auto
  moreover have "h @ body_text (t # u # ts)
      = (h @ ''## '' @ tool_section t (full_tail t)) @ body_text (u # ts)"
    by (simp only: body_text_simps append_assoc)
  moreover have "h @ concat (map ((@) ''## '') (doc_sections (t # u # ts)))
      = (h @ ''## '' @ tool_section t (full_tail t)) @ concat (map ((@) ''## '') (doc_sections (u # ts)))"
    by (simp only: doc_sections.simps list.map concat.simps append_assoc)
  ultimately show ?case by (simp only:)
qed

lemma header_text_core:
  "header_text m = header_core m @ (if header_core m = [] then [] else NL @ NL)"
  by (simp add: header_text_def header_core_def)

lemma header_core_ends:
  assumes "clean_manifest m" "header_core m \<noteq> []"
  shows "\<not> is_space (hd (header_core m))" "\<not> is_space (last (header_core m))"
proof -
  from assms(1) have c: "stripped (manifest_name m)" "stripped (manifest_description m)"
    by (simp_all add: clean_manifest_def)
  show "\<not> is_space (hd (header_core m))"
    using assms(2) stripped_hd_last [OF c(2)] by (auto simp: header_core_def)
  show "\<not> is_space (last (header_core m))"
    using assms(2) stripped_hd_last [OF c(1)] stripped_hd_last [OF c(2)]
    by (auto simp: header_core_def)
qed

lemma header_strips:
  assumes "clean_manifest m"
  shows "strip (header_text m) = header_core m" "rstrip (header_text m) = header_core m"
    "strip (header_core m) = header_core m"
proof -
  show "strip (header_text m) = header_core m"
  proof (cases "header_core m = []")
    case True
    then show ?thesis by (simp add: header_text_core)
  next
    case False
    have "strip (header_core m @ NL @ NL) = header_core m"
      using False header_core_ends [OF assms False] by (intro strip_core) auto
    with False show ?thesis by (simp add: header_text_core)
  qed
  show "rstrip (header_text m) = header_core m"
  proof (cases "header_core m = []")
    case True
    then show ?thesis by (simp add: header_text_core)
  next
    case False
    have "rstrip (header_core m @ NL @ NL) = rstrip (header_core m)"
      by (rule rstrip_append_spaces) simp
    also have "\<dots> = header_core m"
      using False header_core_ends [OF assms False] by (intro rstrip_id) auto
    finally show ?thesis using False by (simp add: header_text_core)
  qed
  show "strip (header_core m) = header_core m"
  proof (cases "header_core m = []")
    case True
    then show ?thesis by simp
  next
    case False
    then show ?thesis using header_core_ends [OF assms False] by (intro strip_id) auto
  qed
qed

lemma description_lines:
  assumes "stripped d" "only_newlines d" "d \<noteq> []"
  shows "splitlines d = split_char (CHR 0x0A) d"
  using assms stripped_hd_last [OF assms(1,3)]
  by (intro splitlines_eq_split_char) (auto simp: only_newlines_def)

lemma header_core_lines:
  assumes "clean_manifest m"
  shows "splitlines (header_core m) =
     (if manifest_name m \<noteq> [] then [''# '' @ manifest_name m] else [])
     @ (if manifest_description m \<noteq> [] then split_char (CHR 0x0A) (manifest_description m)
        else [])"
proof -
  from assms have c: "no_linebreak (manifest_name m)" "stripped (manifest_description m)"
      "only_newlines (manifest_description m)"
    by (simp_all add: clean_manifest_def)
  have nl: "list_all (\<lambda>c. \<not> is_linebreak c) (''# '' @ manifest_name m)"
    using c(1) by (simp add: no_linebreak_def is_linebreak_def)
  show ?thesis
  proof (cases "manifest_name m = []")
    case True
    then show ?thesis
      using description_lines [OF c(2,3)] by (auto simp: header_core_def)
  next
    case False
    show ?thesis
    proof (cases "manifest_description m = []")
      case True
      then show ?thesis
        using False splitlines_line [OF nl] by (simp add: header_core_def)
    next
      case d: False
      have "splitlines ((''# '' @ manifest_name m) @ CHR 0x0A # manifest_description m)
          = (''# '' @ manifest_name m) # splitlines (manifest_description m)"
        using nl d by (rule splitlines_line_NL)
      then show ?thesis
        using False d description_lines [OF c(2,3) d] by (simp add: header_core_def)
    qed
  qed
qed

lemma header_name:
  assumes "clean_manifest m" "h = header_text m \<or> h = rstrip (header_text m)"
  shows "fst (parse_manifest_header h) = manifest_name m"
proof -
  have s: "strip h = header_core m"
    using assms(2) header_strips [OF assms(1)] by auto
  from assms(1) have c: "stripped (manifest_name m)"
      "no_line_starts ''# '' (manifest_description m)"
    by (simp_all add: clean_manifest_def)
  let ?dl = "if manifest_description m \<noteq> [] then split_char (CHR 0x0A) (manifest_description m)
        else []"
  have dl: "\<forall>y \<in> set ?dl. \<not> prefix ''# '' y"
    using c(2) by (auto simp: no_line_starts_def list_all_iff)
  show ?thesis
  proof (cases "manifest_name m = []")
    case True
    then have "splitlines (strip h) = ?dl"
      using header_core_lines [OF assms(1)] s by simp
    then show ?thesis
      using True header_loop_no_h1 [OF dl, of "[]"] by (simp add: parse_manifest_header_eq)
  next
    case False
    then have l: "splitlines (strip h) = [] @ (''# '' @ manifest_name m) # ?dl"
      using header_core_lines [OF assms(1)] s by simp
    have "fst (header_loop [] [] (splitlines (strip h)))
        = strip (removeprefix ''# '' (''# '' @ manifest_name m))"
      unfolding l by (rule header_loop_name [OF _ dl]) simp
    then show ?thesis
      using c(1) by (simp add: parse_manifest_header_eq removeprefix_def stripped_def)
  qed
qed

lemma header_text_free:
  assumes "clean_manifest m" "pat = ''## '' \<or> pat = ''tool:''"
  shows "\<not> bol_match (prefix pat) True (header_text m)"
proof -
  have lp: "pat \<in> set line_pats" using assms(2) by (auto simp: line_pats_def)
  note pp = line_pats_props [OF lp]
  from assms have d: "no_line_starts pat (manifest_description m)"
    and n: "CHR 0x0A \<notin> set (manifest_name m)"
    by (auto simp: clean_manifest_def no_linebreak_NL)
  have nl: "no_line_starts pat (''# '' @ manifest_name m)"
    using n assms(2) by (subst no_line_starts_line) auto
  have 1: "bol_match (prefix pat) True ((''# '' @ manifest_name m) @ CHR 0x0A # rest)
      = bol_match (prefix pat) True rest" for rest
    by (rule bm_field [OF pp(1,2) nl])
  have 2: "bol_match (prefix pat) True (manifest_description m @ CHR 0x0A # rest)
      = bol_match (prefix pat) True rest" for rest
    by (rule bm_field [OF pp(1,2) d])
  have 3: "\<not> prefix pat NL" using assms(2) by auto
  show ?thesis
    using 1 2 3 by (simp add: header_text_def)
qed

lemma uses_compact_prefix:
  "uses_compact s \<Longrightarrow> bol_match (prefix ''tool:'') True s"
proof -
  assume "uses_compact s"
  then have "bol_match tool_marker_at True s"
    by (simp add: uses_compact_def search_tool_bol_match)
  moreover have "\<And>x. tool_marker_at x \<Longrightarrow> prefix ''tool:'' x"
    by (simp add: tool_marker_at_def)
  ultimately show ?thesis
    using bol_match_mono [of tool_marker_at "prefix ''tool:''" True s] by blast
qed

lemma ws_tail_full [simp]: "ws_tail (full_tail t)"
  by (simp add: full_tail_def)

lemma doc_sections_elems:
  "p \<in> set (doc_sections ts) \<Longrightarrow>
   \<exists>t \<in> set ts. p = tool_section t [] \<or> p = tool_section t (full_tail t)"
  by (induction ts rule: doc_sections.induct) auto

lemma doc_sections_butlast:
  "p \<in> set (butlast (doc_sections ts)) \<Longrightarrow> p \<noteq> [] \<and> last p = CHR 0x0A"
proof (induction ts rule: doc_sections.induct)
  case 1
  then show ?case by simp
next
  case (2 t)
  then show ?case by simp
next
  case (3 t u ts)
  have "tool_section t (full_tail t) = tool_section t [] @ full_tail t"
    by (rule tool_section_tail)
  then have "tool_section t (full_tail t) \<noteq> [] \<and> last (tool_section t (full_tail t)) = CHR 0x0A"
    by (simp add: full_tail_def)
  with 3 show ?case by (auto split: if_splits)
qed

lemma doc_sections_Nil_iff [simp]: "doc_sections ts = [] \<longleftrightarrow> ts = []"
  by (induction ts rule: doc_sections.induct) auto

lemma doc_sections_free:
  assumes "list_all clean_tool ts" "p \<in> set (doc_sections ts)" "pat = ''## '' \<or> pat = ''tool:''"
  shows "\<not> bol_match (prefix pat) False p"
proof -
  from doc_sections_elems [OF assms(2)] obtain t where
    t: "t \<in> set ts" "p = tool_section t [] \<or> p = tool_section t (full_tail t)"
    by blast
  then have c: "clean_tool t" using assms(1) by (simp add: list_all_iff)
  from t(2) show ?thesis
    using tool_section_free [OF c _ assms(3), of "[]"]
      tool_section_free [OF c _ assms(3), of "full_tail t"]
    by auto
qed

lemma doc_sections_roundtrip:
  "list_all clean_tool ts \<Longrightarrow>
   map tool_name (map parse_heading_tool (doc_sections ts)) = map tool_name ts
   \<and> map tool_description (map parse_heading_tool (doc_sections ts)) = map tool_description ts
   \<and> map tool_params (map parse_heading_tool (doc_sections ts)) = map tool_params ts
   \<and> map tool_sample_code (map parse_heading_tool (doc_sections ts)) = map tool_sample_code ts"
proof (induction ts rule: doc_sections.induct)
  case 1
  then show ?case by simp
next
  case (2 t)
  then have "clean_tool t" by simp
  from tool_roundtrip [OF this, of "[]"] show ?case by simp
next
  case (3 t u ts)
  then have "clean_tool t" by simp
  from tool_roundtrip [OF this, of "full_tail t"] 3 show ?case by simp
qed

lemma document_split:
  assumes "clean_manifest m"
  shows "split_bol ''## '' True
      (header_text m @ concat (map ((@) ''## '') (doc_sections (manifest_tools m))))
     = header_text m # doc_sections (manifest_tools m)"
proof (rule split_bol_pieces)
  from assms have ts: "list_all clean_tool (manifest_tools m)"
    by (simp add: clean_manifest_def)
  show "CHR 0x0A \<notin> set ''## ''" "''## '' \<noteq> []" by simp_all
  show "\<forall>p \<in> set (doc_sections (manifest_tools m)). split_bol ''## '' False p = [p]"
    using doc_sections_free [OF ts, of _ "''## ''"] by (simp add: split_bol_bol_match)
  show "\<forall>p \<in> set (butlast (doc_sections (manifest_tools m))). p \<noteq> [] \<and> last p = CHR 0x0A"
    using doc_sections_butlast by blast
  show "split_bol ''## '' True (header_text m) = [header_text m]"
    using header_text_free [OF assms, of "''## ''"] by (simp add: split_bol_bol_match)
  show "doc_sections (manifest_tools m) \<noteq> [] \<longrightarrow>
      (if header_text m = [] then True else last (header_text m) = CHR 0x0A)"
    by (simp add: header_text_def)
qed

lemma document_no_marker:
  assumes "clean_manifest m"
  shows "\<not> bol_match (prefix ''tool:'') True
      (header_text m @ concat (map ((@) ''## '') (doc_sections (manifest_tools m))))"
proof (rule bol_match_pieces)
  from assms have ts: "list_all clean_tool (manifest_tools m)"
    by (simp add: clean_manifest_def)
  show "\<And>x y. prefix ''tool:'' (x @ CHR 0x0A # y) = prefix ''tool:'' (x @ [CHR 0x0A])"
    by (rule prefix_loc) simp
  show "\<not> bol_match (prefix ''tool:'') True (header_text m)"
    by (rule header_text_free [OF assms]) simp
  show "\<forall>p \<in> set (doc_sections (manifest_tools m)).
      \<not> bol_match (prefix ''tool:'') True (''## '' @ p)"
    using doc_sections_free [OF ts, of _ "''tool:''"] by simp
  show "doc_sections (manifest_tools m) \<noteq> [] \<longrightarrow>
      (if header_text m = [] then True else last (header_text m) = CHR 0x0A)"
    by (simp add: header_text_def)
  show "\<forall>p \<in> set (butlast (doc_sections (manifest_tools m))). p \<noteq> [] \<and> last p = CHR 0x0A"
    using doc_sections_butlast by blast
qed

lemma document_hd:
  assumes "clean_manifest m" "header_text m @ body_text (manifest_tools m) \<noteq> []"
  shows "\<not> is_space (hd (header_text m @ body_text (manifest_tools m)))"
proof (cases "header_core m = []")
  case True
  with assms(2) obtain t ts where "manifest_tools m = t # ts"
    by (cases "manifest_tools m") (auto simp: header_text_core body_text_simps)
  with True show ?thesis by (simp add: header_text_core body_text_simps)
next
  case False
  then show ?thesis
    using header_core_ends(1) [OF assms(1) False] by (simp add: header_text_core)
qed

lemma roundtrip_clean:
  assumes "clean_manifest m"
  shows "\<exists>m'. parse (to_markdown m) = Inr m'
     \<and> manifest_name m' = manifest_name m
     \<and> map tool_name (manifest_tools m') = map tool_name (manifest_tools m)
     \<and> map tool_description (manifest_tools m') = map tool_description (manifest_tools m)
     \<and> map tool_params (manifest_tools m') = map tool_params (manifest_tools m)
     \<and> map tool_sample_code (manifest_tools m') = map tool_sample_code (manifest_tools m)"
proof -
  define U where "U = header_text m @ body_text (manifest_tools m)"
  from assms have ts: "list_all clean_tool (manifest_tools m)"
    by (simp add: clean_manifest_def)
  have md: "strip (to_markdown m) = rstrip U"
    unfolding to_markdown_shape U_def [symmetric]
    using document_hd [OF assms] by (intro strip_rstrip_NL) (auto simp: U_def)
  show ?thesis
  proof (cases "manifest_tools m = []")
    case True
    then have u: "rstrip U = header_core m"
      using header_strips(2) [OF assms] by (simp add: U_def body_text_simps)
    show ?thesis
    proof (cases "header_core m = []")
      case e: True
      then have "manifest_name m = []" by (auto simp: header_core_def split: if_splits)
      with True e show ?thesis
        by (simp add: parse_def md u empty_Manifest_def mk_Manifest_def)
    next
      case ne: False
      have f: "\<not> bol_match (prefix pat) True (header_core m)"
        if "pat = ''## '' \<or> pat = ''tool:''" for pat
      proof
        assume "bol_match (prefix pat) True (header_core m)"
        then have "bol_match (prefix pat) True (header_core m @ NL @ NL)"
          by (rule bol_match_append_mono [rotated]) auto
        with header_text_free [OF assms that] ne show False
          by (simp add: header_text_core)
      qed
      have nc: "\<not> uses_compact (header_core m)"
        using f [of "''tool:''"] uses_compact_prefix by blast
      have sp: "split_bol ''## '' True (header_core m) = [header_core m]"
        using f [of "''## ''"] by (simp add: split_bol_bol_match)
      have nm: "fst (parse_manifest_header (header_core m)) = manifest_name m"
        using header_name [OF assms, of "header_core m"] header_strips(2) [OF assms] by simp
      obtain d where pm: "parse_manifest_header (header_core m) = (manifest_name m, d)"
        using nm by (cases "parse_manifest_header (header_core m)") auto
      show ?thesis
        using True ne nc
        by (simp add: parse_def md u Let_def parse_heading_def sp mk_Manifest_def pm)
    qed
  next
    case False
    have u: "rstrip U = header_text m @ concat (map ((@) ''## '') (doc_sections (manifest_tools m)))"
      unfolding U_def by (rule rstrip_body [OF False ts])
    have ne: "rstrip U \<noteq> []"
      using False by (cases "manifest_tools m" rule: doc_sections.cases) (auto simp: u)
    have nc: "\<not> uses_compact (rstrip U)"
      using document_no_marker [OF assms] uses_compact_prefix unfolding u by blast
    have sp: "split_bol ''## '' True (rstrip U) = header_text m # doc_sections (manifest_tools m)"
      unfolding u by (rule document_split [OF assms])
    have nm: "fst (parse_manifest_header (header_text m)) = manifest_name m"
      using header_name [OF assms, of "header_text m"] by simp
    note rt = doc_sections_roundtrip [OF ts]
    obtain d where pm: "parse_manifest_header (header_text m) = (manifest_name m, d)"
      using nm by (cases "parse_manifest_header (header_text m)") auto
    show ?thesis
      using ne nc rt
      by (simp add: parse_def md Let_def parse_heading_def sp mk_Manifest_def pm)
  qed
qed

subsection \<open>Shape of the manifests the heading parser produces\<close>

lemma shaped_safe_param:
  "shaped_param p \<Longrightarrow> param_default p = None \<or> \<not> param_required p \<Longrightarrow> clean_param p"
  by (cases "param_default p") (simp_all add: shaped_param_def clean_param_def)

lemma shaped_safe_tool:
  assumes "shaped_tool t" "safe_tool t"
  shows "clean_tool t"
proof -
  have "list_all clean_param (tool_params t)"
    using assms shaped_safe_param
    by (simp add: shaped_tool_def safe_tool_def list_all_iff)
  then show ?thesis
    using assms by (simp add: shaped_tool_def safe_tool_def clean_tool_def)
qed

lemma shaped_safe_clean:
  assumes "shaped_manifest m" "roundtrip_safe m"
  shows "clean_manifest m"
proof -
  have "list_all clean_tool (manifest_tools m)"
    using assms shaped_safe_tool
    by (simp add: shaped_manifest_def roundtrip_safe_def list_all_iff)
  then show ?thesis
    using assms by (simp add: shaped_manifest_def roundtrip_safe_def clean_manifest_def)
qed

lemma set_rstrip: "set (rstrip x) \<subseteq> set x"
proof
  fix c assume "c \<in> set (rstrip x)"
  then have "c \<in> set (dropWhile is_space (rev x))" by (simp add: rstrip_def)
  then have "c \<in> set (rev x)" by (rule set_dropWhileD)
  then show "c \<in> set x" by simp
qed

lemma set_strip: "set (strip s) \<subseteq> set s"
proof
  fix c assume "c \<in> set (strip s)"
  then have "c \<in> set (lstrip s)" using set_rstrip by (auto simp: strip_def)
  then show "c \<in> set s" unfolding lstrip_def by (rule set_dropWhileD)
qed

lemma stripped_strip [simp]: "stripped (strip s)"
proof (cases "strip s = []")
  case True
  then show ?thesis by (simp add: stripped_def)
next
  case False
  define y where "y = lstrip s"
  have sy: "strip s = rstrip y" by (simp add: strip_def y_def)
  with False have yne: "y \<noteq> []" by auto
  then have hy: "\<not> is_space (hd y)"
    unfolding y_def lstrip_def by (rule hd_dropWhile)
  obtain w where w: "y = rstrip y @ w" using rstrip_decomp [of y] by blast
  have "hd (rstrip y @ w) = hd (rstrip y)"
    using False sy by (intro hd_append2) simp
  with w have "hd (rstrip y) = hd y" by simp
  with hy have "\<not> is_space (hd (strip s))" by (simp add: sy)
  moreover have "\<not> is_space (last (strip s))"
    using False rstrip_last [of y] by (simp add: sy)
  ultimately have "strip (strip s) = strip s"
    using False by (intro strip_id)
  then show ?thesis by (simp add: stripped_def)
qed

lemma no_linebreak_strip: "no_linebreak s \<Longrightarrow> no_linebreak (strip s)"
  using set_strip [of s] by (auto simp: no_linebreak_def list_all_iff)

lemma only_newlines_strip: "only_newlines s \<Longrightarrow> only_newlines (strip s)"
  using set_strip [of s] by (auto simp: only_newlines_def list_all_iff)

lemma splitlines_no_linebreak: "l \<in> set (splitlines s) \<Longrightarrow> no_linebreak l"
proof (induction s arbitrary: l rule: splitlines.induct)
  case 1
  then show ?case by simp
next
  case (2 c)
  then show ?case by (auto split: if_splits)
next
  case (3 c d cs)
  show ?case
  proof (cases "c = CHR 0x0D \<and> d = CHR 0x0A")
    case True
    with 3 show ?thesis by auto
  next
    case False
    show ?thesis
    proof (cases "is_linebreak c")
      case True
      with False 3 show ?thesis by auto
    next
      case nb: False
      have eq: "splitlines (c # d # cs) =
          (case splitlines (d # cs) of [] \<Rightarrow> [[c]] | l # ls \<Rightarrow> (c # l) # ls)"
        using False nb by auto
      show ?thesis
      proof (cases "splitlines (d # cs)")
        case Nil
        with eq "3.prems" have "l = [c]" by simp
        with nb show ?thesis by simp
      next
        case (Cons l0 ls)
        with eq "3.prems" have "l = c # l0 \<or> l \<in> set ls" by auto
        moreover have "no_linebreak l0" "\<forall>x \<in> set ls. no_linebreak x"
          using "3.IH"(3) [OF False nb] Cons by auto
        ultimately show ?thesis using nb by auto
      qed
    qed
  qed
qed

lemma only_newlines_join:
  "\<forall>l \<in> set ls. no_linebreak l \<Longrightarrow> only_newlines (join NL ls)"
proof (induction ls)
  case Nil
  then show ?case by (simp add: only_newlines_def)
next
  case (Cons l ls)
  then have a: "only_newlines l" "only_newlines (join NL ls)"
    by (auto simp: only_newlines_def no_linebreak_def list_all_iff)
  show ?case
  proof (cases "ls = []")
    case True
    with a show ?thesis by simp
  next
    case False
    with a show ?thesis by (simp add: join_Cons only_newlines_def)
  qed
qed

lemma no_linebreak_removeprefix: "no_linebreak s \<Longrightarrow> no_linebreak (removeprefix p s)"
proof -
  assume a: "no_linebreak s"
  have "set (drop (length p) s) \<subseteq> set s" by (rule set_drop_subset)
  with a show ?thesis by (auto simp: removeprefix_def no_linebreak_def list_all_iff)
qed

lemma header_loop_shape:
  "stripped n \<and> no_linebreak n \<Longrightarrow> \<forall>l \<in> set ds. no_linebreak l \<Longrightarrow>
   \<forall>l \<in> set ls. no_linebreak l \<Longrightarrow>
   stripped (fst (header_loop n ds ls)) \<and> no_linebreak (fst (header_loop n ds ls))
   \<and> (\<forall>l \<in> set (snd (header_loop n ds ls)). no_linebreak l)"
proof (induction ls arbitrary: n ds)
  case Nil
  then show ?case by simp
next
  case (Cons l ls)
  have rest: "\<forall>l \<in> set ls. no_linebreak l" "no_linebreak l"
    using Cons.prems(3) by simp_all
  show ?case
  proof (cases "prefix ''# '' l")
    case True
    have "stripped (strip (removeprefix ''# '' l)) \<and> no_linebreak (strip (removeprefix ''# '' l))"
      using rest(2) by (simp add: no_linebreak_strip no_linebreak_removeprefix)
    from Cons.IH [OF this Cons.prems(2) rest(1)] True show ?thesis by simp
  next
    case False
    show ?thesis
    proof (cases "n = []")
      case True
      from Cons.IH [OF Cons.prems(1,2) rest(1)] False True show ?thesis by simp
    next
      case nn: False
      have "\<forall>x \<in> set (ds @ [l]). no_linebreak x"
        using Cons.prems(2) rest(2) by simp
      from Cons.IH [OF Cons.prems(1) this rest(1)] False nn show ?thesis by simp
    qed
  qed
qed

lemma parse_manifest_header_shape:
  "stripped (fst (parse_manifest_header h)) \<and> no_linebreak (fst (parse_manifest_header h))
   \<and> stripped (snd (parse_manifest_header h)) \<and> only_newlines (snd (parse_manifest_header h))"
proof -
  have "stripped (fst (header_loop [] [] (splitlines (strip h))))
      \<and> no_linebreak (fst (header_loop [] [] (splitlines (strip h))))
      \<and> (\<forall>l \<in> set (snd (header_loop [] [] (splitlines (strip h)))). no_linebreak l)"
    by (rule header_loop_shape) (simp_all add: splitlines_no_linebreak)
  then show ?thesis
    by (simp add: parse_manifest_header_eq only_newlines_strip only_newlines_join)
qed

lemma tool_header_shape:
  fixes header :: string
  defines "lines \<equiv> splitlines (strip header)"
  shows "stripped (case lines of [] \<Rightarrow> [] | l # _ \<Rightarrow> strip l)"
    "no_linebreak (case lines of [] \<Rightarrow> [] | l # _ \<Rightarrow> strip l)"
    "stripped (strip (join NL (drop 1 lines)))"
    "only_newlines (strip (join NL (drop 1 lines)))"
proof -
  have nl: "\<forall>l \<in> set lines. no_linebreak l"
    by (simp add: lines_def splitlines_no_linebreak)
  show "stripped (case lines of [] \<Rightarrow> [] | l # _ \<Rightarrow> strip l)"
    by (cases lines) simp_all
  show "no_linebreak (case lines of [] \<Rightarrow> [] | l # _ \<Rightarrow> strip l)"
    using nl by (cases lines) (simp_all add: no_linebreak_strip)
  show "stripped (strip (join NL (drop 1 lines)))" by simp
  have "\<forall>l \<in> set (drop 1 lines). no_linebreak l"
    using nl by (meson in_set_dropD)
  then show "only_newlines (strip (join NL (drop 1 lines)))"
    by (intro only_newlines_strip only_newlines_join)
qed

lemma extract_code_block_stripped: "stripped (extract_code_block b)"
  by (simp add: extract_code_block_def split: option.splits)

lemma strip_Nil_spaces: "strip s = [] \<Longrightarrow> list_all is_space s"
proof -
  assume a: "strip s = []"
  then have "dropWhile is_space (rev (lstrip s)) = []"
    by (simp add: strip_def rstrip_def)
  then have all: "\<forall>c \<in> set (lstrip s). is_space c"
    by (simp add: dropWhile_eq_Nil_conv)
  have "lstrip s = []"
  proof (rule ccontr)
    assume ne: "lstrip s \<noteq> []"
    then have "\<not> is_space (hd (lstrip s))"
      unfolding lstrip_def by (rule hd_dropWhile)
    moreover have "hd (lstrip s) \<in> set (lstrip s)" using ne by simp
    ultimately show False using all by blast
  qed
  then show ?thesis by (simp add: lstrip_def dropWhile_eq_Nil_conv list_all_iff)
qed

lemma strip_nonempty: "d \<noteq> [] \<Longrightarrow> \<not> is_space (hd d) \<Longrightarrow> strip d \<noteq> []"
  using strip_Nil_spaces [of d] by (cases d) auto

lemma match_desc_stripped:
  assumes "match_desc r = Some d" "r \<noteq> [] \<longrightarrow> \<not> is_space (last r)"
  shows "d \<noteq> []" "\<not> is_space (hd d)" "set d \<subseteq> set r"
proof -
  have r': "(if r \<noteq> [] \<and> last r = CHR 0x0A then butlast r else r) = r"
    using assms(2) by auto
  have ne: "dropWhile is_space r \<noteq> []"
  proof
    assume e: "dropWhile is_space r = []"
    then have all: "\<forall>c \<in> set r. is_space c" by (simp add: dropWhile_eq_Nil_conv)
    from assms(1) e r' have "r \<noteq> []" by (auto simp: match_desc_def Let_def split: if_splits)
    then have "last r \<in> set r" by simp
    with all assms(2) \<open>r \<noteq> []\<close> show False by blast
  qed
  with assms(1) r' have d: "d = dropWhile is_space r"
    by (auto simp: match_desc_def Let_def split: if_splits)
  show "d \<noteq> []" using ne d by simp
  show "\<not> is_space (hd d)" unfolding d using ne by (rule hd_dropWhile)
  show "set d \<subseteq> set r" unfolding d by (meson set_dropWhileD subsetI)
qed

lemma dropWhile_Cons_suffix: "dropWhile P xs = y # ys \<Longrightarrow> suffix ys xs"
proof -
  assume a: "dropWhile P xs = y # ys"
  have "xs = takeWhile P xs @ y # ys" using a takeWhile_dropWhile_id [of P xs] by simp
  then have "xs = (takeWhile P xs @ [y]) @ ys" by simp
  then show ?thesis unfolding suffix_def by blast
qed

lemma PARAM_RE_match_SomeD:
  assumes "PARAM_RE_match s = Some (name, mods, d)"
  shows "\<exists>r3 r7 r11. name = takeWhile is_word r3 \<and> name \<noteq> []
      \<and> mods = takeWhile (\<lambda>x. x \<noteq> CHR '')'') r7 \<and> suffix r7 s
      \<and> suffix r11 s \<and> match_desc r11 = Some d"
proof -
  from assms obtain r1 where s: "s = CHR ''-'' # r1"
    by (cases s) (auto simp: PARAM_RE_match_def simp del: dropWhile_eq_Nil_conv split: if_splits)
  from assms s obtain r3 where r3: "dropWhile is_space r1 = CHR ''`'' # r3"
      "takeWhile is_word r3 \<noteq> []"
    by (cases "dropWhile is_space r1") (auto simp: PARAM_RE_match_def simp del: dropWhile_eq_Nil_conv split: if_splits)
  from assms s r3 obtain r5 where r5: "dropWhile is_word r3 = CHR ''`'' # r5"
    by (cases "dropWhile is_word r3") (auto simp: PARAM_RE_match_def simp del: dropWhile_eq_Nil_conv split: if_splits)
  from assms s r3 r5 obtain r7 where r7: "dropWhile is_space r5 = CHR ''('' # r7"
      "takeWhile (\<lambda>x. x \<noteq> CHR '')'') r7 \<noteq> []"
    by (cases "dropWhile is_space r5") (auto simp: PARAM_RE_match_def simp del: dropWhile_eq_Nil_conv split: if_splits)
  from assms s r3 r5 r7 obtain b' r9 where r9: "dropWhile (\<lambda>x. x \<noteq> CHR '')'') r7 = b' # r9"
    by (cases "dropWhile (\<lambda>x. x \<noteq> CHR '')'') r7") (auto simp: PARAM_RE_match_def simp del: dropWhile_eq_Nil_conv split: if_splits)
  from assms s r3 r5 r7 r9 obtain r11 where r11: "dropWhile is_space r9 = CHR '':'' # r11"
    by (cases "dropWhile is_space r9") (auto simp: PARAM_RE_match_def simp del: dropWhile_eq_Nil_conv split: if_splits)
  from assms s r3 r5 r7 r9 r11 have res: "match_desc r11 = Some d"
      "name = takeWhile is_word r3" "mods = takeWhile (\<lambda>x. x \<noteq> CHR '')'') r7"
    by (auto simp: PARAM_RE_match_def simp del: dropWhile_eq_Nil_conv split: option.splits if_splits)
  have s0: "suffix r1 s" using s by (simp add: suffix_Cons)
  have s1: "suffix r3 r1" using r3(1) by (rule dropWhile_Cons_suffix)
  have s2: "suffix r5 r3" using r5 by (rule dropWhile_Cons_suffix)
  have s3: "suffix r7 r5" using r7(1) by (rule dropWhile_Cons_suffix)
  have s4: "suffix r9 r7" using r9 by (rule dropWhile_Cons_suffix)
  have s5: "suffix r11 r9" using r11 by (rule dropWhile_Cons_suffix)
  have s7: "suffix r7 s"
    using s0 s1 s2 s3 suffix_order.trans by blast
  have s11: "suffix r11 s"
    using s7 s4 s5 suffix_order.trans by blast
  with res r3(2) s7 s11 show ?thesis by blast
qed

lemma split_char_subset: "l \<in> set (split_char sep s) \<Longrightarrow> set l \<subseteq> set s"
proof (induction s arbitrary: l)
  case Nil
  then show ?case by simp
next
  case (Cons c cs)
  show ?case
  proof (cases "c = sep")
    case True
    with Cons show ?thesis by auto
  next
    case False
    obtain x xs where sp: "split_char sep cs = x # xs"
      by (cases "split_char sep cs") auto
    with False Cons.prems have "l = c # x \<or> l \<in> set xs" by auto
    then show ?thesis
    proof
      assume "l = c # x"
      moreover have "set x \<subseteq> set cs" using Cons.IH [of x] sp by simp
      ultimately show ?thesis by auto
    next
      assume "l \<in> set xs"
      then have "set l \<subseteq> set cs" using Cons.IH [of l] sp by simp
      then show ?thesis by auto
    qed
  qed
qed

lemma modifier_text_strip:
  "list_all (\<lambda>c. c \<noteq> CHR '','' \<and> c \<noteq> CHR '')'' \<and> \<not> is_linebreak c) s
   \<Longrightarrow> modifier_text (strip s)"
  using set_strip [of s] by (auto simp: modifier_text_def list_all_iff)

lemma modifier_text_default:
  assumes "list_all (\<lambda>c. c \<noteq> CHR '','' \<and> c \<noteq> CHR '')'' \<and> \<not> is_linebreak c) s"
  shows "modifier_text (strip (removeprefix p (strip s)))"
proof -
  have "set (drop (length p) (strip s)) \<subseteq> set (strip s)" by (rule set_drop_subset)
  then have "set (removeprefix p (strip s)) \<subseteq> set s"
    using set_strip [of s] by (auto simp: removeprefix_def)
  with assms have "list_all (\<lambda>c. c \<noteq> CHR '','' \<and> c \<noteq> CHR '')'' \<and> \<not> is_linebreak c)
      (removeprefix p (strip s))"
    by (auto simp: list_all_iff)
  then show ?thesis by (rule modifier_text_strip)
qed

lemma foldl_apply_modifier_shape:
  assumes "foldl apply_modifier (ty, req, dflt) toks = (ty', req', dflt')"
    and "modifier_text ty" "ty \<noteq> ''optional''" "ty \<noteq> ''required''"
      "\<not> prefix ''default='' ty"
    and "case dflt of None \<Rightarrow> True | Some d \<Rightarrow> modifier_text d"
    and "\<forall>tok \<in> set toks.
           list_all (\<lambda>c. c \<noteq> CHR '','' \<and> c \<noteq> CHR '')'' \<and> \<not> is_linebreak c) tok"
  shows "modifier_text ty' \<and> ty' \<noteq> ''optional'' \<and> ty' \<noteq> ''required''
      \<and> \<not> prefix ''default='' ty'
      \<and> (case dflt' of None \<Rightarrow> True | Some d \<Rightarrow> modifier_text d)"
  using assms
proof (induction toks arbitrary: ty req dflt)
  case Nil
  then show ?case by simp
next
  case (Cons tok toks)
  define md where "md = strip tok"
  have tok: "list_all (\<lambda>c. c \<noteq> CHR '','' \<and> c \<noteq> CHR '')'' \<and> \<not> is_linebreak c) tok"
    using Cons.prems(7) by simp
  have md: "modifier_text md" unfolding md_def using tok by (rule modifier_text_strip)
  have dd: "modifier_text (strip (removeprefix ''default='' md))"
    unfolding md_def using tok by (rule modifier_text_default)
  have rest: "\<forall>tok \<in> set toks.
           list_all (\<lambda>c. c \<noteq> CHR '','' \<and> c \<noteq> CHR '')'' \<and> \<not> is_linebreak c) tok"
    using Cons.prems(7) by simp
  consider (a) "md = ''optional''" | (b) "md \<noteq> ''optional''" "md = ''required''"
    | (c) "md \<noteq> ''optional''" "md \<noteq> ''required''" "prefix ''default='' md"
    | (d) "md \<noteq> ''optional''" "md \<noteq> ''required''" "\<not> prefix ''default='' md"
    by blast
  then show ?case
  proof cases
    case a
    then have st: "apply_modifier (ty, req, dflt) tok = (ty, False, dflt)"
      by (simp add: apply_modifier_def md_def)
    show ?thesis
      using Cons.IH [of ty False dflt] Cons.prems rest by (simp add: st)
  next
    case b
    then have st: "apply_modifier (ty, req, dflt) tok = (ty, True, dflt)"
      by (simp add: apply_modifier_def md_def)
    show ?thesis
      using Cons.IH [of ty True dflt] Cons.prems rest by (simp add: st)
  next
    case c
    then have st: "apply_modifier (ty, req, dflt) tok
        = (ty, False, Some (strip (removeprefix ''default='' md)))"
      by (simp add: apply_modifier_def md_def Let_def)
    show ?thesis
      using Cons.IH [of ty False "Some (strip (removeprefix ''default='' md))"] Cons.prems rest dd
      by (simp add: st)
  next
    case d
    then have st: "apply_modifier (ty, req, dflt) tok = (md, req, dflt)"
      by (simp add: apply_modifier_def md_def Let_def)
    show ?thesis
      using Cons.IH [of md req dflt] Cons.prems rest md d by (simp add: st)
  qed
qed

lemma parse_modifiers_shape:
  assumes "parse_modifiers mods = (ty, req, dflt)"
    and "list_all (\<lambda>c. c \<noteq> CHR '')'' \<and> \<not> is_linebreak c) mods"
  shows "modifier_text ty \<and> ty \<noteq> ''optional'' \<and> ty \<noteq> ''required''
      \<and> \<not> prefix ''default='' ty
      \<and> (case dflt of None \<Rightarrow> True | Some d \<Rightarrow> modifier_text d)"
proof (rule foldl_apply_modifier_shape)
  show "foldl apply_modifier (''string'', True, None) (split_char CHR '','' mods) = (ty, req, dflt)"
    using assms(1) by (simp add: parse_modifiers_def)
  show "modifier_text ''string''"
    by (simp add: modifier_text_def stripped_def strip_def lstrip_def rstrip_def is_space_def
        is_linebreak_def)
  show "\<forall>tok \<in> set (split_char CHR '','' mods).
           list_all (\<lambda>c. c \<noteq> CHR '','' \<and> c \<noteq> CHR '')'' \<and> \<not> is_linebreak c) tok"
  proof
    fix tok assume t: "tok \<in> set (split_char CHR '','' mods)"
    then have "set tok \<subseteq> set mods" by (rule split_char_subset)
    moreover have "CHR '','' \<notin> set tok" using t split_char_lines_no_sep by blast
    ultimately show "list_all (\<lambda>c. c \<noteq> CHR '','' \<and> c \<noteq> CHR '')'' \<and> \<not> is_linebreak c) tok"
      using assms(2) by (auto simp: list_all_iff)
  qed
qed simp_all

lemma param_of_line_shape:
  assumes "param_of_line line = Some p" "no_linebreak line"
  shows "shaped_param p"
proof -
  define s where "s = strip line"
  from assms(1) obtain name mods d where m: "PARAM_RE_match s = Some (name, mods, d)"
    by (auto simp: param_of_line_def s_def split: option.splits)
  obtain ty req dflt where pm: "parse_modifiers mods = (ty, req, dflt)"
    by (cases "parse_modifiers mods") auto
  from assms(1) m pm have p: "p = mk_Param name ty (strip d) req dflt"
    by (simp add: param_of_line_def s_def)
  from PARAM_RE_match_SomeD [OF m] obtain r3 r7 r11 where
    name: "name = takeWhile is_word r3" "name \<noteq> []"
    and mods: "mods = takeWhile (\<lambda>x. x \<noteq> CHR '')'') r7" "suffix r7 s"
    and r11: "suffix r11 s" "match_desc r11 = Some d"
    by blast
  have nls: "no_linebreak s" unfolding s_def using assms(2) by (rule no_linebreak_strip)
  have st: "stripped s" by (simp add: s_def)
  have w: "list_all is_word name"
    unfolding name(1) list_all_iff using set_takeWhileD by fastforce
  have "set mods \<subseteq> set s"
    using mods set_takeWhileD [of _ "\<lambda>x. x \<noteq> CHR '')''" r7] set_mono_suffix [OF mods(2)] by blast
  moreover have "CHR '')'' \<notin> set mods"
    using mods(1) set_takeWhileD [of "CHR '')''" "\<lambda>x. x \<noteq> CHR '')''" r7] by blast
  ultimately have mo: "list_all (\<lambda>c. c \<noteq> CHR '')'' \<and> \<not> is_linebreak c) mods"
    using nls by (auto simp: no_linebreak_def list_all_iff)
  note sh = parse_modifiers_shape [OF pm mo]
  have last: "r11 \<noteq> [] \<longrightarrow> \<not> is_space (last r11)"
  proof
    assume ne: "r11 \<noteq> []"
    then have "last r11 = last s" using r11(1) by (auto simp: suffix_def)
    moreover have "s \<noteq> []" using ne r11(1) by (auto simp: suffix_def)
    ultimately show "\<not> is_space (last r11)" using stripped_hd_last [of s] st by simp
  qed
  note d = match_desc_stripped [OF r11(2) last]
  have dne: "strip d \<noteq> []" using d(1,2) by (rule strip_nonempty)
  have "set d \<subseteq> set s" using d(3) set_mono_suffix [OF r11(1)] by blast
  then have "no_linebreak d" using nls by (auto simp: no_linebreak_def list_all_iff)
  then have dnl: "no_linebreak (strip d)" by (rule no_linebreak_strip)
  show ?thesis
    unfolding shaped_param_def p using name(2) w sh dne dnl
    by (simp add: mk_Param_def)
qed

lemma parse_params_block_shape: "list_all shaped_param (parse_params_block b)"
proof -
  have "shaped_param p" if "p \<in> set (parse_params_block b)" for p
  proof -
    from that obtain l where l: "l \<in> set (splitlines (strip b))" "param_of_line l = Some p"
      unfolding parse_params_block_def using in_set_map_filter by fastforce
    from l(1) have "no_linebreak l" by (rule splitlines_no_linebreak)
    with l(2) show ?thesis by (rule param_of_line_shape)
  qed
  then show ?thesis by (simp add: list_all_iff)
qed

lemma parse_heading_tool_shape: "shaped_tool (parse_heading_tool sec)"
proof -
  define header where
    "header = (case split_bol ''### '' True sec of [] \<Rightarrow> [] | h # _ \<Rightarrow> h)"
  define subs where
    "subs = map_of (rev (map sub_section_entry (drop 1 (split_bol ''### '' True sec))))"
  note hs = tool_header_shape [of header]
  have ps: "list_all shaped_param
      (case subs ''params'' of Some b \<Rightarrow> parse_params_block b | None \<Rightarrow> [])"
    by (simp add: parse_params_block_shape split: option.splits)
  have sc: "stripped (case subs ''sample code'' of Some b \<Rightarrow> extract_code_block b | None \<Rightarrow> [])"
    by (simp add: extract_code_block_stripped split: option.splits)
  show ?thesis
    unfolding shaped_tool_def parse_heading_tool_def Let_def mk_Tool_def
    using hs ps sc by (simp add: header_def subs_def)
qed

lemma parse_heading_shape: "shaped_manifest (parse_heading md)"
proof -
  define header where
    "header = (case split_bol ''## '' True md of [] \<Rightarrow> [] | h # _ \<Rightarrow> h)"
  note hs = parse_manifest_header_shape [of header]
  have ts: "list_all shaped_tool (map parse_heading_tool (drop 1 (split_bol ''## '' True md)))"
    by (simp add: list_all_iff parse_heading_tool_shape)
  obtain n d where pm: "parse_manifest_header header = (n, d)"
    by (cases "parse_manifest_header header") auto
  have "parse_heading md = mk_Manifest n d (map parse_heading_tool (drop 1 (split_bol ''## '' True md)))"
    using pm by (simp add: parse_heading_def Let_def header_def)
  then show ?thesis
    unfolding shaped_manifest_def mk_Manifest_def
    using hs ts pm by simp
qed

lemma shaped_manifest_content [simp]:
  "shaped_manifest (m\<lparr>manifest_content := c\<rparr>) = shaped_manifest m"
  by (simp add: shaped_manifest_def)

lemma shaped_empty_Manifest: "shaped_manifest empty_Manifest"
  by (simp add: shaped_manifest_def empty_Manifest_def mk_Manifest_def
      no_linebreak_def only_newlines_def)

lemma parse_heading_dialect_shape:
  assumes "parse text = Inr m" "\<not> uses_compact (strip text)"
  shows "shaped_manifest m"
proof (cases "strip text = []")
  case True
  with assms(1) show ?thesis by (simp add: parse_def shaped_empty_Manifest)
next
  case False
  with assms have "m = (parse_heading (strip text))\<lparr>manifest_content := strip text\<rparr>"
    by (auto simp: parse_def Let_def)
  then show ?thesis by (simp add: parse_heading_shape)
qed

subsection \<open>Where the round trip loses information\<close>

text \<open>
  Each of the following texts is read by the heading parser; the serialization of the
  Manifest it gives is read back as a different Manifest.  A line of the manifest
  description that starts with \<^verbatim>\<open># \<close> once its indentation is stripped becomes the name:
\<close>

lemma roundtrip_changes_name:
  "parse (''# A'' @ NL @ '' # B'')
   = Inr \<lparr>manifest_name = ''A'', manifest_description = ''# B'', manifest_version = ''0.1'',
        manifest_tools = [],
        manifest_content = ''# A'' @ NL @ '' # B''\<rparr>
   \<and> \<not> uses_compact (strip (''# A'' @ NL @ '' # B''))
   \<and> to_markdown
        \<lparr>manifest_name = ''A'', manifest_description = ''# B'', manifest_version = ''0.1'',
        manifest_tools = [],
        manifest_content = ''# A'' @ NL @ '' # B''\<rparr>
       = ''# A'' @ NL @ ''# B'' @ NL
   \<and> parse (''# A'' @ NL @ ''# B'' @ NL)
       = Inr \<lparr>manifest_name = ''B'', manifest_description = [], manifest_version = ''0.1'',
        manifest_tools = [],
        manifest_content = ''# A'' @ NL @ ''# B''\<rparr>"
  by code_simp

text \<open>A line of a tool description that starts with \<^verbatim>\<open>## \<close> becomes a further tool:\<close>

lemma roundtrip_adds_tool:
  "parse (''## t'' @ NL @ '' ## u'')
   = Inr \<lparr>manifest_name = [], manifest_description = [], manifest_version = ''0.1'',
        manifest_tools = [mk_Tool ''t'' ''## u'' [] [] []],
        manifest_content = ''## t'' @ NL @ '' ## u''\<rparr>
   \<and> \<not> uses_compact (strip (''## t'' @ NL @ '' ## u''))
   \<and> to_markdown
        \<lparr>manifest_name = [], manifest_description = [], manifest_version = ''0.1'',
        manifest_tools = [mk_Tool ''t'' ''## u'' [] [] []],
        manifest_content = ''## t'' @ NL @ '' ## u''\<rparr>
       = ''## t'' @ NL @ ''## u'' @ NL
   \<and> parse (''## t'' @ NL @ ''## u'' @ NL)
       = Inr \<lparr>manifest_name = [], manifest_description = [], manifest_version = ''0.1'',
        manifest_tools = [mk_Tool ''t'' [] [] [] [], mk_Tool ''u'' [] [] [] []],
        manifest_content = ''## t'' @ NL @ ''## u''\<rparr>"
  by code_simp

text \<open>Sample code that contains a fence is cut at that fence:\<close>

lemma roundtrip_cuts_sample_code:
  "parse (''## t'' @ NL @ ''### Sample Code'' @ NL @ ''x ``` y'')
   = Inr \<lparr>manifest_name = [], manifest_description = [], manifest_version = ''0.1'',
        manifest_tools = [mk_Tool ''t'' [] [] [] ''x ``` y''],
        manifest_content = ''## t'' @ NL @ ''### Sample Code'' @ NL @ ''x ``` y''\<rparr>
   \<and> \<not> uses_compact (strip (''## t'' @ NL @ ''### Sample Code'' @ NL @ ''x ``` y''))
   \<and> to_markdown
        \<lparr>manifest_name = [], manifest_description = [], manifest_version = ''0.1'',
        manifest_tools = [mk_Tool ''t'' [] [] [] ''x ``` y''],
        manifest_content = ''## t'' @ NL @ ''### Sample Code'' @ NL @ ''x ``` y''\<rparr>
       = ''## t'' @ NL @ NL @ ''### Sample Code'' @ NL @ ''```javascript'' @ NL @ ''x ``` y'' @ NL @ ''```'' @ NL
   \<and> parse (''## t'' @ NL @ NL @ ''### Sample Code'' @ NL @ ''```javascript'' @ NL @ ''x ``` y'' @ NL @ ''```'' @ NL)
       = Inr \<lparr>manifest_name = [], manifest_description = [], manifest_version = ''0.1'',
        manifest_tools = [mk_Tool ''t'' [] [] [] ''x''],
        manifest_content = ''## t'' @ NL @ NL @ ''### Sample Code'' @ NL @ ''```javascript'' @ NL @ ''x ``` y'' @ NL @ ''```''\<rparr>"
  by code_simp

text \<open>A last tool with the empty name is lost, its heading joining the tool before it:\<close>

lemma roundtrip_drops_tool:
  "parse (''## x'' @ NL @ ''## '' @ NL @ ''### Params'')
   = Inr \<lparr>manifest_name = [], manifest_description = [], manifest_version = ''0.1'',
        manifest_tools = [mk_Tool ''x'' [] [] [] [], mk_Tool [] [] [] [] []],
        manifest_content = ''## x'' @ NL @ ''## '' @ NL @ ''### Params''\<rparr>
   \<and> \<not> uses_compact (strip (''## x'' @ NL @ ''## '' @ NL @ ''### Params''))
   \<and> to_markdown
        \<lparr>manifest_name = [], manifest_description = [], manifest_version = ''0.1'',
        manifest_tools = [mk_Tool ''x'' [] [] [] [], mk_Tool [] [] [] [] []],
        manifest_content = ''## x'' @ NL @ ''## '' @ NL @ ''### Params''\<rparr>
       = ''## x'' @ NL @ NL @ NL @ ''##'' @ NL
   \<and> parse (''## x'' @ NL @ NL @ NL @ ''##'' @ NL)
       = Inr \<lparr>manifest_name = [], manifest_description = [], manifest_version = ''0.1'',
        manifest_tools = [mk_Tool ''x'' ''##'' [] [] []],
        manifest_content = ''## x'' @ NL @ NL @ NL @ ''##''\<rparr>"
  by code_simp

text \<open>A description line that starts with \<^verbatim>\<open>tool: \<close> makes the serialization compact-dialect text:\<close>

lemma roundtrip_changes_dialect:
  "parse (''# A'' @ NL @ '' tool: x'')
   = Inr \<lparr>manifest_name = ''A'', manifest_description = ''tool: x'', manifest_version = ''0.1'',
        manifest_tools = [],
        manifest_content = ''# A'' @ NL @ '' tool: x''\<rparr>
   \<and> \<not> uses_compact (strip (''# A'' @ NL @ '' tool: x''))
   \<and> to_markdown
        \<lparr>manifest_name = ''A'', manifest_description = ''tool: x'', manifest_version = ''0.1'',
        manifest_tools = [],
        manifest_content = ''# A'' @ NL @ '' tool: x''\<rparr>
       = ''# A'' @ NL @ ''tool: x'' @ NL
   \<and> parse (''# A'' @ NL @ ''tool: x'' @ NL)
       = Inr \<lparr>manifest_name = ''A'', manifest_description = ''tool: x'', manifest_version = ''0.1'',
        manifest_tools = [mk_Tool ''x'' [] [] [] []],
        manifest_content = ''# A'' @ NL @ ''tool: x''\<rparr>"
  by code_simp

text \<open>A tool name that starts with \<^verbatim>\<open>### \<close> is read back as a sub-section heading:\<close>

lemma roundtrip_empties_tool_name:
  "parse (''##  ### x'')
   = Inr \<lparr>manifest_name = [], manifest_description = [], manifest_version = ''0.1'',
        manifest_tools = [mk_Tool ''### x'' [] [] [] []],
        manifest_content = ''##  ### x''\<rparr>
   \<and> \<not> uses_compact (strip (''##  ### x''))
   \<and> to_markdown
        \<lparr>manifest_name = [], manifest_description = [], manifest_version = ''0.1'',
        manifest_tools = [mk_Tool ''### x'' [] [] [] []],
        manifest_content = ''##  ### x''\<rparr>
       = ''## ### x'' @ NL
   \<and> parse (''## ### x'' @ NL)
       = Inr \<lparr>manifest_name = [], manifest_description = [], manifest_version = ''0.1'',
        manifest_tools = [mk_Tool [] [] [] [] []],
        manifest_content = ''## ### x''\<rparr>"
  by code_simp

subsection \<open>The round trip of heading-dialect manifests\<close>

text \<open>
  Claim C1 as stated fails.  The heading parser reads the modifiers
  \<^verbatim>\<open>default=5, required\<close> as a required Param with default 5; the serializer writes
  \<^verbatim>\<open>required, default=5\<close>, which is read back as an optional Param: the required flag
  of the Param is not reproduced.
\<close>

theorem heading_roundtrip_counterexample:
  "parse (''# S'' @ NL @ ''## t'' @ NL @ ''### Params'' @ NL @ ''- `x` (string, default=5, required): d'')
   = Inr \<lparr>manifest_name = ''S'', manifest_description = [], manifest_version = ''0.1'',
        manifest_tools = [mk_Tool ''t'' [] [mk_Param ''x'' ''string'' ''d'' True (Some ''5'')] [] []],
        manifest_content = ''# S'' @ NL @ ''## t'' @ NL @ ''### Params'' @ NL @ ''- `x` (string, default=5, required): d''\<rparr>
   \<and> \<not> uses_compact (strip (''# S'' @ NL @ ''## t'' @ NL @ ''### Params'' @ NL @ ''- `x` (string, default=5, required): d''))
   \<and> to_markdown
        \<lparr>manifest_name = ''S'', manifest_description = [], manifest_version = ''0.1'',
        manifest_tools = [mk_Tool ''t'' [] [mk_Param ''x'' ''string'' ''d'' True (Some ''5'')] [] []],
        manifest_content = ''# S'' @ NL @ ''## t'' @ NL @ ''### Params'' @ NL @ ''- `x` (string, default=5, required): d''\<rparr>
       = ''# S'' @ NL @ NL @ ''## t'' @ NL @ NL @ ''### Params'' @ NL @ ''- `x` (string, required, default=5): d'' @ NL
   \<and> parse (''# S'' @ NL @ NL @ ''## t'' @ NL @ NL @ ''### Params'' @ NL @ ''- `x` (string, required, default=5): d'' @ NL)
       = Inr \<lparr>manifest_name = ''S'', manifest_description = [], manifest_version = ''0.1'',
        manifest_tools = [mk_Tool ''t'' [] [mk_Param ''x'' ''string'' ''d'' False (Some ''5'')] [] []],
        manifest_content = ''# S'' @ NL @ NL @ ''## t'' @ NL @ NL @ ''### Params'' @ NL @ ''- `x` (string, required, default=5): d''\<rparr>"
  by code_simp

text \<open>
  Claim C1, amended.  For every Manifest \<open>m\<close> produced by the heading-dialect parser in
  which no line of the manifest description starts with \<^verbatim>\<open># \<close>, \<^verbatim>\<open>## \<close> or \<^verbatim>\<open>tool:\<close>,
  and every tool has a non-empty name that does not start with \<^verbatim>\<open>### \<close>, has no line
  of its description, returns text or sample code starting with \<^verbatim>\<open>## \<close>, \<^verbatim>\<open>### \<close> or
  \<^verbatim>\<open>tool:\<close>, has no fence in its sample code, and has no Param that is required and has a
  default: \<^verbatim>\<open>parse(to_markdown(m))\<close> returns a Manifest with the name of \<open>m\<close>, the tool
  names of \<open>m\<close> in the same order, and for each tool the same params (names, types,
  descriptions, required flags and defaults), the same description and the same sample
  code.
\<close>

theorem heading_roundtrip:
  assumes "parse text = Inr m" "\<not> uses_compact (strip text)" "roundtrip_safe m"
  shows "\<exists>m'. parse (to_markdown m) = Inr m'
      \<and> manifest_name m' = manifest_name m
      \<and> map tool_name (manifest_tools m') = map tool_name (manifest_tools m)
      \<and> map tool_description (manifest_tools m') = map tool_description (manifest_tools m)
      \<and> map tool_params (manifest_tools m') = map tool_params (manifest_tools m)
      \<and> map tool_sample_code (manifest_tools m') = map tool_sample_code (manifest_tools m)"
proof -
  have "shaped_manifest m" using assms(1,2) by (rule parse_heading_dialect_shape)
  then have "clean_manifest m" using assms(3) by (rule shaped_safe_clean)
  then show ?thesis by (rule roundtrip_clean)
qed

theorem heading_roundtrip_witness:
  "parse (''# My Site'' @ NL @ ''A site.'' @ NL @ NL @ ''## search'' @ NL @ ''Search the site.'' @ NL @ NL @ ''### Params'' @ NL @ ''- `query` (string, required): The query'' @ NL @ ''- `limit` (number, optional, default=10): Max results'' @ NL @ NL @ ''### Output'' @ NL @ ''```typescript'' @ NL @ ''{ items: string[] }'' @ NL @ ''```'' @ NL @ NL @ ''### Sample Code'' @ NL @ ''```js'' @ NL @ ''await global.search({query: 1})'' @ NL @ ''```'' @ NL)
   = Inr \<lparr>manifest_name = ''My Site'', manifest_description = ''A site.'', manifest_version = ''0.1'',
        manifest_tools = [mk_Tool ''search'' ''Search the site.''
            [mk_Param ''query'' ''string'' ''The query'' True None,
             mk_Param ''limit'' ''number'' ''Max results'' False (Some ''10'')]
            ''{ items: string[] }'' ''await global.search({query: 1})''],
        manifest_content = ''# My Site'' @ NL @ ''A site.'' @ NL @ NL @ ''## search'' @ NL @ ''Search the site.'' @ NL @ NL @ ''### Params'' @ NL @ ''- `query` (string, required): The query'' @ NL @ ''- `limit` (number, optional, default=10): Max results'' @ NL @ NL @ ''### Output'' @ NL @ ''```typescript'' @ NL @ ''{ items: string[] }'' @ NL @ ''```'' @ NL @ NL @ ''### Sample Code'' @ NL @ ''```js'' @ NL @ ''await global.search({query: 1})'' @ NL @ ''```''\<rparr>
   \<and> \<not> uses_compact (strip (''# My Site'' @ NL @ ''A site.'' @ NL @ NL @ ''## search'' @ NL @ ''Search the site.'' @ NL @ NL @ ''### Params'' @ NL @ ''- `query` (string, required): The query'' @ NL @ ''- `limit` (number, optional, default=10): Max results'' @ NL @ NL @ ''### Output'' @ NL @ ''```typescript'' @ NL @ ''{ items: string[] }'' @ NL @ ''```'' @ NL @ NL @ ''### Sample Code'' @ NL @ ''```js'' @ NL @ ''await global.search({query: 1})'' @ NL @ ''```'' @ NL))
   \<and> roundtrip_safe
        \<lparr>manifest_name = ''My Site'', manifest_description = ''A site.'', manifest_version = ''0.1'',
        manifest_tools = [mk_Tool ''search'' ''Search the site.''
            [mk_Param ''query'' ''string'' ''The query'' True None,
             mk_Param ''limit'' ''number'' ''Max results'' False (Some ''10'')]
            ''{ items: string[] }'' ''await global.search({query: 1})''],
        manifest_content = ''# My Site'' @ NL @ ''A site.'' @ NL @ NL @ ''## search'' @ NL @ ''Search the site.'' @ NL @ NL @ ''### Params'' @ NL @ ''- `query` (string, required): The query'' @ NL @ ''- `limit` (number, optional, default=10): Max results'' @ NL @ NL @ ''### Output'' @ NL @ ''```typescript'' @ NL @ ''{ items: string[] }'' @ NL @ ''```'' @ NL @ NL @ ''### Sample Code'' @ NL @ ''```js'' @ NL @ ''await global.search({query: 1})'' @ NL @ ''```''\<rparr>
   \<and> (\<exists>m'. parse (to_markdown
        \<lparr>manifest_name = ''My Site'', manifest_description = ''A site.'', manifest_version = ''0.1'',
        manifest_tools = [mk_Tool ''search'' ''Search the site.''
            [mk_Param ''query'' ''string'' ''The query'' True None,
             mk_Param ''limit'' ''number'' ''Max results'' False (Some ''10'')]
            ''{ items: string[] }'' ''await global.search({query: 1})''],
        manifest_content = ''# My Site'' @ NL @ ''A site.'' @ NL @ NL @ ''## search'' @ NL @ ''Search the site.'' @ NL @ NL @ ''### Params'' @ NL @ ''- `query` (string, required): The query'' @ NL @ ''- `limit` (number, optional, default=10): Max results'' @ NL @ NL @ ''### Output'' @ NL @ ''```typescript'' @ NL @ ''{ items: string[] }'' @ NL @ ''```'' @ NL @ NL @ ''### Sample Code'' @ NL @ ''```js'' @ NL @ ''await global.search({query: 1})'' @ NL @ ''```''\<rparr>) = Inr m'
      \<and> manifest_name m' = ''My Site''
      \<and> map tool_name (manifest_tools m') = [''search'']
      \<and> map tool_description (manifest_tools m') = [''Search the site.'']
      \<and> map tool_params (manifest_tools m')
          = [[mk_Param ''query'' ''string'' ''The query'' True None,
              mk_Param ''limit'' ''number'' ''Max results'' False (Some ''10'')]]
      \<and> map tool_sample_code (manifest_tools m') = [''await global.search({query: 1})''])"
proof -
  define doc where "doc = ''# My Site'' @ NL @ ''A site.'' @ NL @ NL @ ''## search'' @ NL @ ''Search the site.'' @ NL @ NL @ ''### Params'' @ NL @ ''- `query` (string, required): The query'' @ NL @ ''- `limit` (number, optional, default=10): Max results'' @ NL @ NL @ ''### Output'' @ NL @ ''```typescript'' @ NL @ ''{ items: string[] }'' @ NL @ ''```'' @ NL @ NL @ ''### Sample Code'' @ NL @ ''```js'' @ NL @ ''await global.search({query: 1})'' @ NL @ ''```'' @ NL"
  define m where "m = \<lparr>manifest_name = ''My Site'', manifest_description = ''A site.'', manifest_version = ''0.1'',
        manifest_tools = [mk_Tool ''search'' ''Search the site.''
            [mk_Param ''query'' ''string'' ''The query'' True None,
             mk_Param ''limit'' ''number'' ''Max results'' False (Some ''10'')]
            ''{ items: string[] }'' ''await global.search({query: 1})''],
        manifest_content = ''# My Site'' @ NL @ ''A site.'' @ NL @ NL @ ''## search'' @ NL @ ''Search the site.'' @ NL @ NL @ ''### Params'' @ NL @ ''- `query` (string, required): The query'' @ NL @ ''- `limit` (number, optional, default=10): Max results'' @ NL @ NL @ ''### Output'' @ NL @ ''```typescript'' @ NL @ ''{ items: string[] }'' @ NL @ ''```'' @ NL @ NL @ ''### Sample Code'' @ NL @ ''```js'' @ NL @ ''await global.search({query: 1})'' @ NL @ ''```''\<rparr>"
  have p: "parse doc = Inr m"
    unfolding doc_def m_def by code_simp
  have h: "\<not> uses_compact (strip doc)"
    unfolding doc_def by code_simp
  have s: "roundtrip_safe m"
    unfolding m_def by code_simp
  have n: "manifest_name m = ''My Site''"
    and tn: "map tool_name (manifest_tools m) = [''search'']"
    and td: "map tool_description (manifest_tools m) = [''Search the site.'']"
    and tp: "map tool_params (manifest_tools m)
          = [[mk_Param ''query'' ''string'' ''The query'' True None,
              mk_Param ''limit'' ''number'' ''Max results'' False (Some ''10'')]]"
    and ts: "map tool_sample_code (manifest_tools m) = [''await global.search({query: 1})'']"
    unfolding m_def by (simp_all add: mk_Tool_def)
  from heading_roundtrip [OF p h s] have "\<exists>m'. parse (to_markdown m) = Inr m'
      \<and> manifest_name m' = ''My Site''
      \<and> map tool_name (manifest_tools m') = [''search'']
      \<and> map tool_description (manifest_tools m') = [''Search the site.'']
      \<and> map tool_params (manifest_tools m')
          = [[mk_Param ''query'' ''string'' ''The query'' True None,
              mk_Param ''limit'' ''number'' ''Max results'' False (Some ''10'')]]
      \<and> map tool_sample_code (manifest_tools m') = [''await global.search({query: 1})'']"
    unfolding n tn td tp ts .
  with p h s show ?thesis unfolding doc_def m_def by blast
qed
end
